theory Spec2Isabelle
  imports Main "HOL-Library.AList"
begin

section \<open>Python values\<close>

text \<open>
  The values that reach \<open>stringify\<close> in \<open>client.py\<close>: \<open>bytes\<close> objects, \<open>str\<close>
  objects, lists and dicts.  A \<open>bytes\<close> object is the list of its 8-bit bytes (an
  Isabelle \<open>char\<close> is one byte).  A \<open>str\<close> object is represented by the bytes of its UTF-8
  encoding, which determines the text; an ASCII literal such as \<open>'dn'\<close> is the Isabelle
  literal of the same spelling.  A dict is an association list in insertion order with
  distinct \<open>str\<close> keys: \<open>d[k] = v\<close> is \<open>AList.update k v d\<close> (an existing key keeps its
  place, a new key goes last), \<open>del d[k]\<close> is \<open>AList.delete k d\<close>, \<open>k in d\<close> is
  \<open>k \<in> fst ` set d\<close> and \<open>d[k]\<close> is \<open>map_of d k\<close>, with \<open>None\<close> where Python raises
  \<open>KeyError\<close>.
\<close>

datatype pyval =
    PBytes "char list"
  | PStr string
  | PList "pyval list"
  | PDict "(string \<times> pyval) list"

type_synonym pydict = "(string \<times> pyval) list"

datatype exn = UnicodeDecodeError | KeyError

subsection \<open>\<open>str(b, 'utf-8')\<close>\<close>

text \<open>
  The built-in conversion \<open>str(b, 'utf-8')\<close> decodes with the strict error handler: it
  returns the text when \<open>b\<close> is well-formed UTF-8 (the byte ranges of the Unicode
  standard, table 3-7: no overlong forms, no surrogates, nothing above U+10FFFF, no
  truncated sequence) and raises \<open>UnicodeDecodeError\<close> otherwise.
\<close>

definition byte_in :: "nat \<Rightarrow> nat \<Rightarrow> char \<Rightarrow> bool" where
  "byte_in lo hi c \<longleftrightarrow> lo \<le> of_char c \<and> of_char c \<le> hi"

definition second_of_3 :: "char \<Rightarrow> char \<Rightarrow> bool" where
  "second_of_3 b0 b1 =
     (if byte_in 0xE0 0xE0 b0 then byte_in 0xA0 0xBF b1
      else if byte_in 0xED 0xED b0 then byte_in 0x80 0x9F b1
      else byte_in 0x80 0xBF b1)"

definition second_of_4 :: "char \<Rightarrow> char \<Rightarrow> bool" where
  "second_of_4 b0 b1 =
     (if byte_in 0xF0 0xF0 b0 then byte_in 0x90 0xBF b1
      else if byte_in 0xF4 0xF4 b0 then byte_in 0x80 0x8F b1
      else byte_in 0x80 0xBF b1)"

fun utf8_valid :: "char list \<Rightarrow> bool" where
  "utf8_valid [] = True"
| "utf8_valid (b0 # bs) =
     (if byte_in 0x00 0x7F b0 then utf8_valid bs
      else if byte_in 0xC2 0xDF b0 then
        (case bs of
           b1 # r \<Rightarrow> byte_in 0x80 0xBF b1 \<and> utf8_valid r
         | _ \<Rightarrow> False)
      else if byte_in 0xE0 0xEF b0 then
        (case bs of
           b1 # b2 # r \<Rightarrow> second_of_3 b0 b1 \<and> byte_in 0x80 0xBF b2 \<and> utf8_valid r
         | _ \<Rightarrow> False)
      else if byte_in 0xF0 0xF4 b0 then
        (case bs of
           b1 # b2 # b3 # r \<Rightarrow>
             second_of_4 b0 b1 \<and> byte_in 0x80 0xBF b2 \<and> byte_in 0x80 0xBF b3 \<and> utf8_valid r
         | _ \<Rightarrow> False)
      else False)"

definition str_utf8 :: "char list \<Rightarrow> exn + string" where
  "str_utf8 b = (if utf8_valid b then Inr b else Inl UnicodeDecodeError)"

section \<open>\<open>stringify\<close>\<close>

text \<open>
  \<open>stringify(obj)\<close>, lines 108 to 127.  A \<open>bytes\<close> object is decoded.  The loop over a
  dict looks at each value: \<open>bytes\<close> is decoded, a list goes through \<open>stringify\<close>, anything
  else (a \<open>str\<close>, a dict) stays as it is.  The loop over a list does the same with each
  element.  \<open>dict_loop\<close> and \<open>list_loop\<close> are the two \<open>for\<close> loops; an exception raised by a
  decoding leaves the loop and the function at once (\<open>Inl\<close>).

  The dict branch assigns \<open>obj[k]\<close> in place and returns the same object, so after a call
  that returns, the dict that was passed holds the returned value; the callers below
  that keep such a dict say so.
\<close>

fun stringify :: "pyval \<Rightarrow> exn + pyval"
  and list_loop :: "pyval list \<Rightarrow> exn + pyval list"
  and dict_loop :: "pydict \<Rightarrow> exn + pydict"
where
  "stringify (PBytes b) =
     (case str_utf8 b of Inl e \<Rightarrow> Inl e | Inr s \<Rightarrow> Inr (PStr s))"
| "stringify (PStr s) = Inr (PStr s)"
| "stringify (PDict d) =
     (case dict_loop d of Inl e \<Rightarrow> Inl e | Inr d' \<Rightarrow> Inr (PDict d'))"
| "stringify (PList l) =
     (case list_loop l of Inl e \<Rightarrow> Inl e | Inr l' \<Rightarrow> Inr (PList l'))"
| "list_loop [] = Inr []"
| "list_loop (el # rest) =
     (case (case el of
              PBytes b \<Rightarrow> (case str_utf8 b of Inl e \<Rightarrow> Inl e | Inr s \<Rightarrow> Inr (PStr s))
            | PList l \<Rightarrow> stringify (PList l)
            | _ \<Rightarrow> Inr el) of
        Inl e \<Rightarrow> Inl e
      | Inr el' \<Rightarrow>
          (case list_loop rest of Inl e \<Rightarrow> Inl e | Inr newlist \<Rightarrow> Inr (el' # newlist)))"
| "dict_loop [] = Inr []"
| "dict_loop ((k, v) # rest) =
     (case (case v of
              PBytes b \<Rightarrow> (case str_utf8 b of Inl e \<Rightarrow> Inl e | Inr s \<Rightarrow> Inr (PStr s))
            | PList l \<Rightarrow> stringify (PList l)
            | _ \<Rightarrow> Inr v) of
        Inl e \<Rightarrow> Inl e
      | Inr v' \<Rightarrow>
          (case dict_loop rest of Inl e \<Rightarrow> Inl e | Inr d' \<Rightarrow> Inr ((k, v') # d')))"

section \<open>The publisher\<close>

text \<open>
  \<open>post_change(dn, attributes, previous_attributes, change_type)\<close>, lines 91 to 103,
  builds the JSON body \<open>js\<close> and hands it to \<open>requests.put\<close>.  The three conversions are
  evaluated in the order of the dict display (dn, old attributes, new attributes) and
  stand outside the \<open>try\<close>: an exception of \<open>stringify\<close> leaves \<open>post_change\<close> before
  anything is sent.  Whatever \<open>requests.put\<close> raises is caught and printed, so a body that
  was built counts as published, delivered or not.
\<close>

record payload =
  js_dn :: pyval
  js_change_type :: string
  js_old_attributes :: pyval
  js_new_attributes :: pyval

definition post_change :: "pyval \<Rightarrow> pydict \<Rightarrow> pydict \<Rightarrow> string \<Rightarrow> exn + payload" where
  "post_change dn attributes previous_attributes change_type =
     (case stringify dn of
        Inl e \<Rightarrow> Inl e
      | Inr dn' \<Rightarrow>
          (case stringify (PDict previous_attributes) of
             Inl e \<Rightarrow> Inl e
           | Inr old' \<Rightarrow>
               (case stringify (PDict attributes) of
                  Inl e \<Rightarrow> Inl e
                | Inr new' \<Rightarrow>
                    Inr \<lparr>js_dn = dn', js_change_type = change_type,
                         js_old_attributes = old', js_new_attributes = new'\<rparr>)))"

section \<open>The synchronisation consumer\<close>

text \<open>
  The fields that \<open>SyncReplClient.__init__\<close> sets (lines 33 to 38).  \<open>changedb\<close> maps an
  entry's UUID to its attribute dict; \<open>presentUUIDs\<close> is a dict whose values are all
  \<open>True\<close> and of which only membership is ever asked, so it is the set of its keys.
\<close>

record client =
  cookie :: "string option"
  sync_done :: bool
  changedb :: "(string \<times> pydict) list"
  presentUUIDs :: "string set"
  pubsub_url :: string

definition init :: client where
  "init = \<lparr>cookie = None, sync_done = False, changedb = [], presentUUIDs = {},
            pubsub_url = ''http://localhost:2069/private/ldap''\<rparr>"

text \<open>
  A callback either returns, with the client as it has become, or raises.  Both carry the
  bodies published on the way, oldest first.  An exception of a callback passes through
  the library's \<open>syncrepl_poll\<close> to \<open>main\<close>, which drops the client object, so no client is
  kept after a raise.
\<close>

datatype outcome = Done client "payload list" | Raised exn "payload list"

fun published :: "outcome \<Rightarrow> payload list" where
  "published (Done self ps) = ps"
| "published (Raised e ps) = ps"

fun after_publishing :: "payload list \<Rightarrow> outcome \<Rightarrow> outcome" where
  "after_publishing qs (Done self ps) = Done self (qs @ ps)"
| "after_publishing qs (Raised e ps) = Raised e (qs @ ps)"

fun dict_items :: "pyval \<Rightarrow> pydict" where
  "dict_items (PDict d) = d"
| "dict_items v = []"

text \<open>
  Lines 49 to 54 of \<open>syncrepl_entry\<close>: the change type and the previous attributes.
\<close>

definition classify :: "client \<Rightarrow> string \<Rightarrow> string \<times> pydict" where
  "classify self uuid =
     (case map_of (changedb self) uuid of
        Some previous_attributes \<Rightarrow> (''modify'', previous_attributes)
      | None \<Rightarrow> (''add'', []))"

text \<open>
  \<open>syncrepl_entry(dn, attributes, uuid)\<close>, lines 48 to 59.  The dict stored in \<open>changedb\<close>
  is the very object handed to \<open>post_change\<close>, whose \<open>stringify\<close> rewrites it in place: once
  a change has been published the stored dict is the converted one, the
  \<open>new_attributes\<close> of the body.  (The library builds a new dict for each entry it
  reports, so no other name refers to it.)
\<close>

definition syncrepl_entry :: "string \<Rightarrow> pydict \<Rightarrow> string \<Rightarrow> client \<Rightarrow> outcome" where
  "syncrepl_entry dn attributes uuid self =
     (let (change_type, previous_attributes) = classify self uuid;
          attributes' = AList.update ''dn'' (PStr dn) attributes;
          self' = self\<lparr>changedb := AList.update uuid attributes' (changedb self)\<rparr>
      in if sync_done self then
           (case post_change (PStr dn) attributes' previous_attributes change_type of
              Inl e \<Rightarrow> Raised e []
            | Inr js \<Rightarrow>
                Done (self\<lparr>changedb :=
                        AList.update uuid (dict_items (js_new_attributes js)) (changedb self)\<rparr>)
                     [js])
         else Done self' [])"

text \<open>
  \<open>syncrepl_delete(uuids)\<close>, lines 61 to 67.  The list is filtered against \<open>changedb\<close> once,
  before the loop; the loop then reads \<open>changedb[uuid]\<close> and \<open>changedb[uuid]['dn']\<close>, both
  of which raise \<open>KeyError\<close> on a missing key.
\<close>

fun delete_loop :: "string list \<Rightarrow> client \<Rightarrow> outcome" where
  "delete_loop [] self = Done self []"
| "delete_loop (uuid # uuids) self =
     (case map_of (changedb self) uuid of
        None \<Rightarrow> Raised KeyError []
      | Some entry \<Rightarrow>
          (case map_of entry ''dn'' of
             None \<Rightarrow> Raised KeyError []
           | Some dn \<Rightarrow>
               (case post_change dn [] entry ''delete'' of
                  Inl e \<Rightarrow> Raised e []
                | Inr js \<Rightarrow>
                    after_publishing [js]
                      (delete_loop uuids
                         (self\<lparr>changedb := AList.delete uuid (changedb self)\<rparr>)))))"

definition syncrepl_delete :: "string list \<Rightarrow> client \<Rightarrow> outcome" where
  "syncrepl_delete uuids self =
     delete_loop (filter (\<lambda>uuid. uuid \<in> fst ` set (changedb self)) uuids) self"

text \<open>
  \<open>syncrepl_present(uuids, refreshDeletes)\<close>, lines 69 to 84; \<open>uuids\<close> is \<open>None\<close> or a list.
\<close>

definition syncrepl_present :: "string list option \<Rightarrow> bool \<Rightarrow> client \<Rightarrow> outcome" where
  "syncrepl_present uuids refreshDeletes self =
     (case uuids of
        None \<Rightarrow>
          (if \<not> refreshDeletes then
             (case syncrepl_delete
                     (filter (\<lambda>uuid. uuid \<notin> presentUUIDs self \<and> uuid \<noteq> ''ldap_cookie'')
                        (map fst (changedb self))) self of
                Done self' ps \<Rightarrow> Done (self'\<lparr>presentUUIDs := {}\<rparr>) ps
              | Raised e ps \<Rightarrow> Raised e ps)
           else Done (self\<lparr>presentUUIDs := {}\<rparr>) [])
      | Some us \<Rightarrow>
          (if refreshDeletes then syncrepl_delete us self
           else Done (self\<lparr>presentUUIDs := presentUUIDs self \<union> set us\<rparr>) []))"

definition syncrepl_refreshdone :: "client \<Rightarrow> outcome" where
  "syncrepl_refreshdone self = Done (self\<lparr>sync_done := True\<rparr>) []"

definition syncrepl_set_cookie :: "string \<Rightarrow> client \<Rightarrow> client" where
  "syncrepl_set_cookie c self = self\<lparr>cookie := Some c\<rparr>"

definition set_pubsub_url :: "string \<Rightarrow> client \<Rightarrow> client" where
  "set_pubsub_url url self = self\<lparr>pubsub_url := url\<rparr>"

subsection \<open>Sequences of callbacks\<close>

text \<open>
  The library's \<open>syncrepl_poll\<close> calls the callbacks one after the other, in the order in
  which the server's messages arrive, and stops at the first exception.
\<close>

datatype callback =
    OnEntry string pydict string
  | OnDelete "string list"
  | OnPresent "string list option" bool
  | OnRefreshDone

fun dispatch :: "callback \<Rightarrow> client \<Rightarrow> outcome" where
  "dispatch (OnEntry dn attributes uuid) self = syncrepl_entry dn attributes uuid self"
| "dispatch (OnDelete uuids) self = syncrepl_delete uuids self"
| "dispatch (OnPresent uuids refreshDeletes) self = syncrepl_present uuids refreshDeletes self"
| "dispatch OnRefreshDone self = syncrepl_refreshdone self"

fun run :: "callback list \<Rightarrow> client \<Rightarrow> outcome" where
  "run [] self = Done self []"
| "run (c # cs) self =
     (case dispatch c self of
        Done self' ps \<Rightarrow> after_publishing ps (run cs self')
      | Raised e ps \<Rightarrow> Raised e ps)"

section \<open>The supervisor\<close>

text \<open>
  \<open>main(config)\<close>, lines 129 to 168.  What the directory server, the network and the user
  do is given from outside.  A call into a library returns, raises an exception (a
  subclass of \<open>Exception\<close>), or is interrupted by the user, that is, raises
  \<open>KeyboardInterrupt\<close>.  For \<open>simple_bind_s\<close> the two exceptions that \<open>main\<close> handles are
  told apart from the others.  The polling ends when the search is over
  (\<open>syncrepl_poll\<close> returns a false value), on \<open>KeyboardInterrupt\<close>, or on another
  exception; an exception of a callback ends it as any other exception does.
\<close>

datatype call_end = Returns | Raises | Interrupted

datatype bind_result = BindOk | InvalidCredentials | ServerDown | BindRaises | BindInterrupted

datatype poll_end = SearchOver | KeyboardInterrupt | PollRaises

text \<open>
  One record for each turn of the \<open>while True\<close> loop: how the constructor of line 134
  ends, how the bind of line 140 ends, how \<open>syncrepl_search\<close> of line 151 ends, which
  callbacks the polling of line 160 delivers and how it ends, and whether the user
  interrupts the \<open>time.sleep(5)\<close> of the turn (line 146 or line 168), if it comes to it.
\<close>

record attempt =
  connect_ends :: call_end
  bind_ends :: bind_result
  search_ends :: call_end
  callbacks :: "callback list"
  polling_ends :: poll_end
  sleep_interrupted :: bool

text \<open>
  \<open>config['ldapurl']\<close> raises \<open>KeyError\<close> when the key is missing.
\<close>

record config =
  ldapurl :: "string option"
  pubsuburl :: "string option"

text \<open>
  What can be seen of a run: the message of line 132 at the start of a turn, the bodies
  handed to \<open>requests.put\<close>, and the sleeps that ran to their end.  A run ends with
  \<open>sys.exit\<close>, with the return of \<open>main\<close>, with an exception that nobody catches, with a
  \<open>KeyboardInterrupt\<close> that nobody catches, or not at all: when the turns given are used
  up, the loop is still running.
\<close>

datatype action = Connect | Put payload | Sleep nat

datatype ending = SysExit nat | Return | Uncaught | UncaughtInterrupt | Looping

text \<open>
  Lines 134 to 136: a new client for every turn; \<open>config.get("pubsuburl")\<close> counts when
  it is present and not the empty string.
\<close>

definition connect :: "config \<Rightarrow> client" where
  "connect cfg =
     (case pubsuburl cfg of
        Some url \<Rightarrow> if url \<noteq> [] then set_pubsub_url url init else init
      | None \<Rightarrow> init)"

fun after_actions :: "action list \<Rightarrow> action list \<times> ending \<Rightarrow> action list \<times> ending" where
  "after_actions as (bs, e) = (as @ bs, e)"

text \<open>
  The loop, lines 131 to 168.  Only the polling stands in a \<open>try\<close> with
  \<open>except KeyboardInterrupt\<close> and \<open>except Exception\<close>; the \<open>try\<close> around the bind has the two
  handlers of lines 141 and 144; the constructor, \<open>syncrepl_search\<close> and both sleeps are
  guarded by nothing.
\<close>

fun main_loop :: "config \<Rightarrow> attempt list \<Rightarrow> action list \<times> ending" where
  "main_loop cfg [] = ([], Looping)"
| "main_loop cfg (a # rest) =
     (case connect_ends a of
        Raises \<Rightarrow> ([Connect], Uncaught)
      | Interrupted \<Rightarrow> ([Connect], UncaughtInterrupt)
      | Returns \<Rightarrow>
          (case bind_ends a of
             InvalidCredentials \<Rightarrow> ([Connect], SysExit 1)
           | ServerDown \<Rightarrow>
               if sleep_interrupted a then ([Connect], UncaughtInterrupt)
               else after_actions [Connect, Sleep 5] (main_loop cfg rest)
           | BindRaises \<Rightarrow> ([Connect], Uncaught)
           | BindInterrupted \<Rightarrow> ([Connect], UncaughtInterrupt)
           | BindOk \<Rightarrow>
               (case search_ends a of
                  Raises \<Rightarrow> ([Connect], Uncaught)
                | Interrupted \<Rightarrow> ([Connect], UncaughtInterrupt)
                | Returns \<Rightarrow>
                    (case run (callbacks a) (connect cfg) of
                       Raised e ps \<Rightarrow>
                         if sleep_interrupted a then (Connect # map Put ps, UncaughtInterrupt)
                         else after_actions (Connect # map Put ps @ [Sleep 5])
                                (main_loop cfg rest)
                     | Done self ps \<Rightarrow>
                         (case polling_ends a of
                            KeyboardInterrupt \<Rightarrow> (Connect # map Put ps, Return)
                          | PollRaises \<Rightarrow>
                              if sleep_interrupted a
                              then (Connect # map Put ps, UncaughtInterrupt)
                              else after_actions (Connect # map Put ps @ [Sleep 5])
                                     (main_loop cfg rest)
                          | SearchOver \<Rightarrow>
                              after_actions (Connect # map Put ps) (main_loop cfg rest))))))"

text \<open>
  Line 130 comes before the loop and is guarded by nothing either: \<open>url_ends\<close> says how
  \<open>ldapurl.LDAPUrl\<close> ends.
\<close>

definition main :: "config \<Rightarrow> call_end \<Rightarrow> attempt list \<Rightarrow> action list \<times> ending" where
  "main cfg url_ends script =
     (case ldapurl cfg of
        None \<Rightarrow> ([], Uncaught)
      | Some url \<Rightarrow>
          (case url_ends of
             Raises \<Rightarrow> ([], Uncaught)
           | Interrupted \<Rightarrow> ([], UncaughtInterrupt)
           | Returns \<Rightarrow> main_loop cfg script))"

text \<open>
  How the process ends: with the argument of \<open>sys.exit\<close> as its status, with status 0
  when \<open>main\<close> returns and the script is over, with status 1 when the interpreter ends on
  an exception that nobody caught, and through the signal \<open>SIGINT\<close>, so with no exit
  status of its own, when it ends on a \<open>KeyboardInterrupt\<close> that nobody caught (Python
  3.8 and later).
\<close>

datatype process_end = Status nat | Sigint

fun exit_status :: "ending \<Rightarrow> process_end option" where
  "exit_status (SysExit n) = Some (Status n)"
| "exit_status Return = Some (Status 0)"
| "exit_status Uncaught = Some (Status 1)"
| "exit_status UncaughtInterrupt = Some Sigint"
| "exit_status Looping = None"

section \<open>Notions used in the statements\<close>

text \<open>
  The branch that both loops of \<open>stringify\<close> apply to one value (lines 114 to 117 and
  121 to 124).
\<close>

definition convert_item :: "pyval \<Rightarrow> exn + pyval" where
  "convert_item v =
     (case v of
        PBytes b \<Rightarrow> (case str_utf8 b of Inl e \<Rightarrow> Inl e | Inr s \<Rightarrow> Inr (PStr s))
      | PList l \<Rightarrow> stringify (PList l)
      | _ \<Rightarrow> Inr v)"

text \<open>\<open>stringify(stringify(obj))\<close>.\<close>

definition stringify_twice :: "pyval \<Rightarrow> exn + pyval" where
  "stringify_twice v = (case stringify v of Inl e \<Rightarrow> Inl e | Inr y \<Rightarrow> stringify y)"

text \<open>A value holds a \<open>bytes\<close> object, at whatever depth.\<close>

fun has_bytes :: "pyval \<Rightarrow> bool" where
  "has_bytes (PBytes b) = True"
| "has_bytes (PStr s) = False"
| "has_bytes (PList l) = list_ex has_bytes l"
| "has_bytes (PDict d) = list_ex (\<lambda>kv. has_bytes (snd kv)) d"

text \<open>Every \<open>bytes\<close> object in a value, at whatever depth, is well-formed UTF-8.\<close>

fun decodable :: "pyval \<Rightarrow> bool" where
  "decodable (PBytes b) = utf8_valid b"
| "decodable (PStr s) = True"
| "decodable (PList l) = list_all decodable l"
| "decodable (PDict d) = list_all (\<lambda>kv. decodable (snd kv)) d"

text \<open>
  The shape of \<open>changedb\<close> that the callbacks keep: its keys are distinct, as the keys of
  a dict are, and every stored dict has a \<open>str\<close> under \<open>'dn'\<close>.
\<close>

definition has_dn :: "pydict \<Rightarrow> bool" where
  "has_dn entry = (case map_of entry ''dn'' of Some (PStr d) \<Rightarrow> True | _ \<Rightarrow> False)"

definition wf_client :: "client \<Rightarrow> bool" where
  "wf_client self \<longleftrightarrow>
     distinct (map fst (changedb self)) \<and> list_all (\<lambda>kv. has_dn (snd kv)) (changedb self)"

text \<open>
  \<open>js\<close> is the body of the Delete event for the entry that \<open>changedb\<close> holds under
  \<open>uuid\<close>: change type \<open>'delete'\<close>, the stored dn, the stored attributes as the old
  attributes and an empty dict as the new ones, each as \<open>stringify\<close> returns it.
\<close>

definition delete_event_of :: "client \<Rightarrow> string \<Rightarrow> payload \<Rightarrow> bool" where
  "delete_event_of self uuid js =
     (case map_of (changedb self) uuid of
        None \<Rightarrow> False
      | Some entry \<Rightarrow>
          (case map_of entry ''dn'' of
             None \<Rightarrow> False
           | Some dn \<Rightarrow>
               js_change_type js = ''delete'' \<and> stringify dn = Inr (js_dn js)
               \<and> stringify (PDict entry) = Inr (js_old_attributes js)
               \<and> js_new_attributes js = PDict []))"

text \<open>
  A client in the refresh phase that has been told of three entries, the third with an
  attribute: \<open>syncrepl_entry('cn=c', {'cn': [b'c']}, 'uC')\<close>.
\<close>

definition three_entries :: client where
  "three_entries = init\<lparr>changedb :=
     [(''uA'', [(''dn'', PStr ''cn=a'')]),
      (''uB'', [(''dn'', PStr ''cn=b'')]),
      (''uC'', [(''cn'', PList [PBytes ''c'']), (''dn'', PStr ''cn=c'')])]\<rparr>"


text \<open>
  A sequence of \<open>syncrepl_entry\<close> calls, each given by its arguments (dn, attributes,
  uuid), as the callbacks of a session.
\<close>

definition entry_calls :: "(string \<times> pydict \<times> string) list \<Rightarrow> callback list" where
  "entry_calls es = map (\<lambda>(dn, attributes, uuid). OnEntry dn attributes uuid) es"

text \<open>
  The dict that the last call for \<open>uuid\<close> in the sequence handed over, as line 55 leaves it:
  with the dn of that call under \<open>'dn'\<close>.  \<open>None\<close> when no call of the sequence is for
  \<open>uuid\<close>.
\<close>

fun latest_entry :: "(string \<times> pydict \<times> string) list \<Rightarrow> string \<Rightarrow> pydict option" where
  "latest_entry [] uuid = None"
| "latest_entry ((dn, attributes, uuid') # es) uuid =
     (case latest_entry es uuid of
        Some m \<Rightarrow> Some m
      | None \<Rightarrow> if uuid' = uuid then Some (AList.update ''dn'' (PStr dn) attributes) else None)"

text \<open>
  Lines 55 and 56 as one step on \<open>changedb\<close>.
\<close>

definition store_entry :: "(string \<times> pydict) list \<Rightarrow> string \<times> pydict \<times> string \<Rightarrow> (string \<times> pydict) list" where
  "store_entry db e =
     (case e of (dn, attributes, uuid) \<Rightarrow>
        AList.update uuid (AList.update ''dn'' (PStr dn) attributes) db)"

text \<open>
  \<open>stringify\<close> returns on a value.
\<close>

definition converts :: "pyval \<Rightarrow> bool" where
  "converts v = (case stringify v of Inl e \<Rightarrow> False | Inr y \<Rightarrow> True)"

text \<open>
  What a published body says of the dn: the \<open>old_attributes\<close> of a Delete event, and the
  \<open>new_attributes\<close> of an Add or Modify event, hold under \<open>'dn'\<close> the very \<open>dn\<close> of the body;
  the \<open>old_attributes\<close> of a Modify event hold some \<open>str\<close> under \<open>'dn'\<close>.
\<close>

definition dn_in_body :: "payload \<Rightarrow> bool" where
  "dn_in_body js =
     (if js_change_type js = ''delete''
      then map_of (dict_items (js_old_attributes js)) ''dn'' = Some (js_dn js)
      else map_of (dict_items (js_new_attributes js)) ''dn'' = Some (js_dn js)
           \<and> (if js_change_type js = ''modify''
                then has_dn (dict_items (js_old_attributes js)) else True))"

text \<open>
  A client in the persist phase that holds one entry, stored as \<open>cn=a\<close>.
\<close>

definition one_entry_live :: client where
  "one_entry_live = init\<lparr>sync_done := True, changedb := [(''u1'', [(''dn'', PStr ''cn=a'')])]\<rparr>"

text \<open>
  A turn fails when the server is down at the bind, or when the bind and the search go
  through and an exception other than \<open>KeyboardInterrupt\<close> leaves the polling: these are
  the turns that come to one of the two \<open>time.sleep(5)\<close>.
\<close>

definition fails :: "config \<Rightarrow> attempt \<Rightarrow> bool" where
  "fails cfg a =
     (connect_ends a = Returns \<and>
      (case bind_ends a of
         ServerDown \<Rightarrow> True
       | BindOk \<Rightarrow>
           search_ends a = Returns \<and>
           (case run (callbacks a) (connect cfg) of
              Raised e ps \<Rightarrow> True
            | Done self ps \<Rightarrow> polling_ends a = PollRaises)
       | _ \<Rightarrow> False))"

text \<open>
  The search of a turn is over: bind and search go through, no callback raises and
  \<open>syncrepl_poll\<close> returns a false value.
\<close>

definition search_over :: "config \<Rightarrow> attempt \<Rightarrow> bool" where
  "search_over cfg a =
     (connect_ends a = Returns \<and> bind_ends a = BindOk \<and> search_ends a = Returns \<and>
      (case run (callbacks a) (connect cfg) of
         Raised e ps \<Rightarrow> False
       | Done self ps \<Rightarrow> polling_ends a = SearchOver))"

text \<open>
  After such a turn the loop goes round again: the turn fails and its sleep is not
  interrupted, or its search is over.
\<close>

definition retries :: "config \<Rightarrow> attempt \<Rightarrow> bool" where
  "retries cfg a = (fails cfg a \<and> \<not> sleep_interrupted a \<or> search_over cfg a)"

text \<open>
  The bodies published in one turn, by the callbacks of a client that was new at its
  start; none when the turn does not get as far as the polling.
\<close>

definition turn_puts :: "config \<Rightarrow> attempt \<Rightarrow> payload list" where
  "turn_puts cfg a =
     (if connect_ends a = Returns \<and> bind_ends a = BindOk \<and> search_ends a = Returns
      then published (run (callbacks a) (connect cfg)) else [])"

text \<open>
  What is seen of a turn after which the loop goes round again: the message, the bodies
  of the turn, and the sleep of 5 seconds when the turn fails, none when its search is
  over.
\<close>

definition turn_trace :: "config \<Rightarrow> attempt \<Rightarrow> action list" where
  "turn_trace cfg a =
     Connect # map Put (turn_puts cfg a) @ (if fails cfg a then [Sleep 5] else [])"

text \<open>
  A configuration and some turns of the loop: the server is down; an entry with a value
  that is not UTF-8 arrives after the refresh; the search is over; the user interrupts
  the polling; the credentials are refused; the bind raises another exception; the
  search cannot be started; the user interrupts the sleep that follows a refused
  connection.
\<close>

definition cfg0 :: config where
  "cfg0 = \<lparr>ldapurl = Some ''ldap://localhost/dc=example'', pubsuburl = None\<rparr>"

definition server_down :: attempt where
  "server_down = \<lparr>connect_ends = Returns, bind_ends = ServerDown, search_ends = Returns,
                   callbacks = [], polling_ends = SearchOver, sleep_interrupted = False\<rparr>"

definition bad_value :: attempt where
  "bad_value = \<lparr>connect_ends = Returns, bind_ends = BindOk, search_ends = Returns,
                 callbacks = [OnRefreshDone,
                              OnEntry ''cn=a'' [(''jpegPhoto'', PList [PBytes [CHR 0xFF]])] ''u1''],
                 polling_ends = SearchOver, sleep_interrupted = False\<rparr>"

definition search_ended :: attempt where
  "search_ended = \<lparr>connect_ends = Returns, bind_ends = BindOk, search_ends = Returns,
                    callbacks = [OnRefreshDone, OnEntry ''cn=a'' [] ''u1''],
                    polling_ends = SearchOver, sleep_interrupted = False\<rparr>"

definition interrupted :: attempt where
  "interrupted = \<lparr>connect_ends = Returns, bind_ends = BindOk, search_ends = Returns,
                   callbacks = [OnEntry ''cn=a'' [] ''u1''],
                   polling_ends = KeyboardInterrupt, sleep_interrupted = False\<rparr>"

definition denied :: attempt where
  "denied = \<lparr>connect_ends = Returns, bind_ends = InvalidCredentials, search_ends = Returns,
              callbacks = [], polling_ends = SearchOver, sleep_interrupted = False\<rparr>"

definition bind_error :: attempt where
  "bind_error = \<lparr>connect_ends = Returns, bind_ends = BindRaises, search_ends = Returns,
                  callbacks = [], polling_ends = SearchOver, sleep_interrupted = False\<rparr>"

definition search_error :: attempt where
  "search_error = \<lparr>connect_ends = Returns, bind_ends = BindOk, search_ends = Raises,
                    callbacks = [], polling_ends = SearchOver, sleep_interrupted = False\<rparr>"

definition sleep_cut :: attempt where
  "sleep_cut = \<lparr>connect_ends = Returns, bind_ends = ServerDown, search_ends = Returns,
                 callbacks = [], polling_ends = SearchOver, sleep_interrupted = True\<rparr>"

section \<open>Properties of \<open>stringify\<close>\<close>

lemma list_loop_Cons:
  "list_loop (el # rest) =
     (case convert_item el of
        Inl e \<Rightarrow> Inl e
      | Inr el' \<Rightarrow>
          (case list_loop rest of Inl e \<Rightarrow> Inl e | Inr newlist \<Rightarrow> Inr (el' # newlist)))"
  by (simp add: convert_item_def)

lemma dict_loop_Cons:
  "dict_loop ((k, v) # rest) =
     (case convert_item v of
        Inl e \<Rightarrow> Inl e
      | Inr v' \<Rightarrow>
          (case dict_loop rest of Inl e \<Rightarrow> Inl e | Inr d' \<Rightarrow> Inr ((k, v') # d')))"
  by (simp add: convert_item_def)

lemma list_loop_ConsE:
  assumes "list_loop (el # rest) = Inr l'"
  obtains el' r where "convert_item el = Inr el'" and "list_loop rest = Inr r" and "l' = el' # r"
proof -
  from assms have
    "(case convert_item el of
        Inl e \<Rightarrow> Inl e
      | Inr el' \<Rightarrow>
          (case list_loop rest of Inl e \<Rightarrow> Inl e | Inr newlist \<Rightarrow> Inr (el' # newlist))) = Inr l'"
    by (simp only: list_loop_Cons)
  then show thesis using that by (auto split: sum.splits)
qed

lemma dict_loop_ConsE:
  assumes "dict_loop ((k, v) # rest) = Inr d'"
  obtains v' r where "convert_item v = Inr v'" and "dict_loop rest = Inr r" and "d' = (k, v') # r"
proof -
  from assms have
    "(case convert_item v of
        Inl e \<Rightarrow> Inl e
      | Inr v' \<Rightarrow>
          (case dict_loop rest of Inl e \<Rightarrow> Inl e | Inr d' \<Rightarrow> Inr ((k, v') # d'))) = Inr d'"
    by (simp only: dict_loop_Cons)
  then show thesis using that by (auto split: sum.splits)
qed

subsection \<open>A second conversion changes nothing\<close>

lemma convert_item_idem:
  assumes "\<And>y. stringify x = Inr y \<Longrightarrow> stringify y = Inr y" and "convert_item x = Inr y"
  shows "convert_item y = Inr y"
proof (cases x)
  case (PBytes b)
  with assms(2) show ?thesis by (auto simp: convert_item_def split: sum.splits)
next
  case (PStr s)
  with assms(2) show ?thesis by (auto simp: convert_item_def)
next
  case (PList l)
  with assms(2) have s: "stringify x = Inr y" by (simp add: convert_item_def)
  with PList obtain l' where y: "y = PList l'" by (auto split: sum.splits)
  from assms(1)[OF s] y show ?thesis by (simp add: convert_item_def)
next
  case (PDict d)
  with assms(2) show ?thesis by (auto simp: convert_item_def)
qed

lemma list_loop_idem:
  "(\<And>x y. x \<in> set l \<Longrightarrow> convert_item x = Inr y \<Longrightarrow> convert_item y = Inr y) \<Longrightarrow>
   list_loop l = Inr l' \<Longrightarrow> list_loop l' = Inr l'"
proof (induction l arbitrary: l')
  case Nil
  then show ?case by simp
next
  case (Cons a l)
  from Cons.prems(2) obtain a' r
    where a: "convert_item a = Inr a'" and r: "list_loop l = Inr r" and l': "l' = a' # r"
    by (rule list_loop_ConsE)
  have "convert_item a' = Inr a'" using Cons.prems(1)[of a a'] a by simp
  moreover have "list_loop r = Inr r" using Cons.IH[OF _ r] Cons.prems(1) by auto
  ultimately show ?case using l' by (simp only: list_loop_Cons sum.case)
qed

lemma dict_loop_idem:
  "(\<And>k x y. (k, x) \<in> set d \<Longrightarrow> convert_item x = Inr y \<Longrightarrow> convert_item y = Inr y) \<Longrightarrow>
   dict_loop d = Inr d' \<Longrightarrow> dict_loop d' = Inr d'"
proof (induction d arbitrary: d')
  case Nil
  then show ?case by simp
next
  case (Cons p d)
  obtain k a where p: "p = (k, a)" by (cases p)
  from Cons.prems(2) obtain a' r
    where a: "convert_item a = Inr a'" and r: "dict_loop d = Inr r" and d': "d' = (k, a') # r"
    unfolding p by (rule dict_loop_ConsE)
  have "convert_item a' = Inr a'" using Cons.prems(1)[of k a a'] a p by simp
  moreover have "dict_loop r = Inr r" using Cons.IH[OF _ r] Cons.prems(1) by auto
  ultimately show ?case using d' by (simp only: dict_loop_Cons sum.case)
qed

lemma stringify_idem: "stringify v = Inr y \<Longrightarrow> stringify y = Inr y"
proof (induction v arbitrary: y)
  case (PBytes b)
  then show ?case by (auto split: sum.splits)
next
  case (PStr s)
  then show ?case by auto
next
  case (PList l)
  from PList.prems obtain l' where l': "list_loop l = Inr l'" and y: "y = PList l'"
    by (auto split: sum.splits)
  have "list_loop l' = Inr l'"
    by (rule list_loop_idem[OF _ l']) (rule convert_item_idem, rule PList.IH)
  then show ?case using y by simp
next
  case (PDict d)
  from PDict.prems obtain d' where d': "dict_loop d = Inr d'" and y: "y = PDict d'"
    by (auto split: sum.splits)
  have "dict_loop d' = Inr d'"
  proof (rule dict_loop_idem[OF _ d'])
    fix k x y assume kx: "(k, x) \<in> set d" and c: "convert_item x = Inr y"
    show "convert_item y = Inr y"
    proof (rule convert_item_idem[OF _ c])
      fix z assume "stringify x = Inr z"
      then show "stringify z = Inr z" using PDict.IH[of "(k, x)" x z] kx by simp
    qed
  qed
  then show ?case using y by simp
qed

text \<open>
  C9.  \<open>stringify\<close> is idempotent: for every value built from dicts, lists, \<open>bytes\<close> and
  \<open>str\<close>, however nested, \<open>stringify(stringify(obj))\<close> ends as \<open>stringify(obj)\<close> does, with
  the same value when the first conversion returns and with the same exception when it
  raises.
\<close>

theorem stringify_idempotent: "stringify_twice v = stringify v"
  by (cases "stringify v") (simp_all add: stringify_twice_def stringify_idem)

subsection \<open>Dicts below the top level are not visited\<close>

text \<open>
  C6.  The claim is that no \<open>bytes\<close> object is left at any depth of the result.  The loops
  look for \<open>bytes\<close> and for lists only: a dict that is a value of the dict, or an element
  of a list, is returned as it came, with the \<open>bytes\<close> inside it.
\<close>

theorem stringify_skips_nested_dict:
  "stringify (PDict [(''k'', PDict [(''j'', PBytes ''a'')])])
     = Inr (PDict [(''k'', PDict [(''j'', PBytes ''a'')])])
   \<and> has_bytes (PDict [(''k'', PDict [(''j'', PBytes ''a'')])])
   \<and> stringify (PList [PDict [(''j'', PBytes ''a'')]])
     = Inr (PList [PDict [(''j'', PBytes ''a'')]])
   \<and> has_bytes (PList [PDict [(''j'', PBytes ''a'')]])"
  by simp

subsection \<open>When the conversion returns\<close>

lemma list_loop_decodable:
  "list_all decodable l \<Longrightarrow>
   (\<And>x. x \<in> set l \<Longrightarrow> decodable x \<Longrightarrow> \<exists>y. convert_item x = Inr y) \<Longrightarrow>
   \<exists>l'. list_loop l = Inr l'"
proof (induction l)
  case Nil
  then show ?case by simp
next
  case (Cons a l)
  then obtain a' where "convert_item a = Inr a'" by auto
  moreover from Cons obtain r where "list_loop l = Inr r" by auto
  ultimately show ?case by (simp only: list_loop_Cons sum.case) blast
qed

lemma dict_loop_decodable:
  "list_all (\<lambda>kv. decodable (snd kv)) d \<Longrightarrow>
   (\<And>k x. (k, x) \<in> set d \<Longrightarrow> decodable x \<Longrightarrow> \<exists>y. convert_item x = Inr y) \<Longrightarrow>
   \<exists>d'. dict_loop d = Inr d'"
proof (induction d)
  case Nil
  then show ?case by simp
next
  case (Cons p d)
  obtain k a where p: "p = (k, a)" by (cases p)
  with Cons obtain a' where "convert_item a = Inr a'" by auto
  moreover from Cons obtain r where "dict_loop d = Inr r" by auto
  ultimately show ?case unfolding p by (simp only: dict_loop_Cons sum.case) blast
qed

lemma convert_item_decodable:
  assumes "decodable x \<Longrightarrow> \<exists>y. stringify x = Inr y" and "decodable x"
  shows "\<exists>y. convert_item x = Inr y"
  using assms by (cases x) (auto simp: convert_item_def str_utf8_def)

lemma stringify_decodable: "decodable v \<Longrightarrow> \<exists>y. stringify v = Inr y"
proof (induction v)
  case (PBytes b)
  then show ?case by (simp add: str_utf8_def)
next
  case (PStr s)
  then show ?case by simp
next
  case (PList l)
  have "\<exists>l'. list_loop l = Inr l'"
  proof (rule list_loop_decodable)
    show "list_all decodable l" using PList.prems by simp
  next
    fix x assume "x \<in> set l" "decodable x"
    then show "\<exists>y. convert_item x = Inr y" using PList.IH convert_item_decodable by blast
  qed
  then show ?case by auto
next
  case (PDict d)
  have "\<exists>d'. dict_loop d = Inr d'"
  proof (rule dict_loop_decodable)
    show "list_all (\<lambda>kv. decodable (snd kv)) d" using PDict.prems by simp
  next
    fix k x assume kx: "(k, x) \<in> set d" and dx: "decodable x"
    have "decodable x \<Longrightarrow> \<exists>y. stringify x = Inr y" using PDict.IH[of "(k, x)" x] kx by simp
    then show "\<exists>y. convert_item x = Inr y" using dx convert_item_decodable by blast
  qed
  then show ?case by auto
qed

lemma post_change_decodable:
  assumes "decodable dn" and "decodable (PDict attributes)"
    and "decodable (PDict previous_attributes)"
  shows "\<exists>js. post_change dn attributes previous_attributes change_type = Inr js"
proof -
  from assms(1) obtain dn' where "stringify dn = Inr dn'"
    using stringify_decodable by blast
  moreover from assms(3) obtain old' where "stringify (PDict previous_attributes) = Inr old'"
    using stringify_decodable by blast
  moreover from assms(2) obtain new' where "stringify (PDict attributes) = Inr new'"
    using stringify_decodable by blast
  ultimately show ?thesis by (simp add: post_change_def)
qed

text \<open>
  \<open>str(obj, 'utf-8')\<close> decodes strictly, so \<open>stringify\<close> returns a text for a \<open>bytes\<close>
  object exactly when the bytes are well-formed UTF-8, and raises \<open>UnicodeDecodeError\<close>
  otherwise.
\<close>

lemma stringify_PBytes:
  "stringify (PBytes b) = (if utf8_valid b then Inr (PStr b) else Inl UnicodeDecodeError)"
  by (simp add: str_utf8_def)

text \<open>
  C7.  \<open>stringify\<close> does not return on every \<open>bytes\<close> object, and building the body can
  fail: on bytes that are not well-formed UTF-8 (here the first two bytes of a JPEG file)
  \<open>stringify\<close> raises \<open>UnicodeDecodeError\<close>, nothing is mis-decoded, and \<open>post_change\<close>,
  which calls \<open>stringify\<close> before its \<open>try\<close>, raises with it, although its
  \<open>except Exception\<close> and its \<open>return True\<close> let no failure of the publishing through.
\<close>

theorem stringify_raises_on_ill_formed:
  "stringify (PBytes [CHR 0xFF, CHR 0xD8]) = Inl UnicodeDecodeError
   \<and> post_change (PStr ''cn=a'') [(''jpegPhoto'', PList [PBytes [CHR 0xFF, CHR 0xD8]])] [] ''add''
       = Inl UnicodeDecodeError"
  by (simp add: post_change_def str_utf8_def byte_in_def)

section \<open>Properties of the consumer\<close>

subsection \<open>Deletions\<close>

lemma convert_item_PStr: "convert_item (PStr s) = Inr (PStr s)"
  by (simp add: convert_item_def)

lemma dict_loop_keys: "dict_loop d = Inr d' \<Longrightarrow> map fst d' = map fst d"
proof (induction d arbitrary: d')
  case Nil
  then show ?case by simp
next
  case (Cons p d)
  obtain k v where p: "p = (k, v)" by (cases p)
  from Cons.prems obtain v' r where "dict_loop d = Inr r" and "d' = (k, v') # r"
    unfolding p by (rule dict_loop_ConsE)
  with Cons.IH p show ?case by simp
qed

lemma dict_loop_keeps_str:
  "dict_loop d = Inr d' \<Longrightarrow> map_of d k = Some (PStr s) \<Longrightarrow> map_of d' k = Some (PStr s)"
proof (induction d arbitrary: d')
  case Nil
  then show ?case by simp
next
  case (Cons p d)
  obtain k0 v where p: "p = (k0, v)" by (cases p)
  from Cons.prems(1) obtain v' r
    where v': "convert_item v = Inr v'" and r: "dict_loop d = Inr r" and d': "d' = (k0, v') # r"
    unfolding p by (rule dict_loop_ConsE)
  show ?case
  proof (cases "k0 = k")
    case True
    with Cons.prems(2) p have "v = PStr s" by simp
    with v' have "v' = PStr s" by (simp add: convert_item_PStr)
    with True d' show ?thesis by simp
  next
    case False
    with Cons.prems(2) p have "map_of d k = Some (PStr s)" by simp
    from Cons.IH[OF r this] False d' show ?thesis by simp
  qed
qed

lemma post_change_Inr:
  assumes "post_change dn attributes previous_attributes change_type = Inr js"
  shows "js_change_type js = change_type"
    and "stringify dn = Inr (js_dn js)"
    and "stringify (PDict previous_attributes) = Inr (js_old_attributes js)"
    and "stringify (PDict attributes) = Inr (js_new_attributes js)"
  using assms by (auto simp: post_change_def split: sum.splits)

lemma stringify_PDict_Inr:
  assumes "stringify (PDict d) = Inr y"
  obtains d' where "y = PDict d'" and "dict_loop d = Inr d'"
  using assms by (auto split: sum.splits)

lemma published_after_publishing [simp]:
  "published (after_publishing qs oc) = qs @ published oc"
  by (cases oc) simp_all


lemma delete_loop_Done:
  "delete_loop ks self = Done self' ps \<Longrightarrow>
   self' = self\<lparr>changedb := filter (\<lambda>kv. fst kv \<notin> set ks) (changedb self)\<rparr>"
proof (induction ks arbitrary: self ps)
  case Nil
  then show ?case by simp
next
  case (Cons u ks)
  from Cons.prems obtain entry dn js oc where
    "map_of (changedb self) u = Some entry" "map_of entry ''dn'' = Some dn"
    "post_change dn [] entry ''delete'' = Inr js"
    and oc: "delete_loop ks (self\<lparr>changedb := AList.delete u (changedb self)\<rparr>) = oc"
    and d: "after_publishing [js] oc = Done self' ps"
    by (auto split: option.splits sum.splits)
  from d obtain ps' where "oc = Done self' ps'" by (cases oc) auto
  with oc Cons.IH have "self' = self\<lparr>changedb := AList.delete u (changedb self)\<rparr>
       \<lparr>changedb := filter (\<lambda>kv. fst kv \<notin> set ks) (changedb (self\<lparr>changedb := AList.delete u (changedb self)\<rparr>))\<rparr>"
    by blast
  then show ?case by (simp add: AList.delete_eq case_prod_beta eq_commute[of u])
qed

lemma has_dn_iff: "has_dn entry \<longleftrightarrow> (\<exists>d. map_of entry ''dn'' = Some (PStr d))"
  by (auto simp: has_dn_def split: option.splits pyval.splits)

lemma wf_client_dn:
  assumes "wf_client self" and "map_of (changedb self) u = Some entry"
  obtains d where "map_of entry ''dn'' = Some (PStr d)"
proof -
  from assms(2) have "(u, entry) \<in> set (changedb self)" by (rule map_of_SomeD)
  with assms(1) have "has_dn entry" by (auto simp: wf_client_def list_all_iff)
  then show thesis using that by (auto simp: has_dn_iff)
qed

lemma known_iff: "u \<in> fst ` set db \<longleftrightarrow> (\<exists>entry. map_of db u = Some entry)"
  by (metis domIff dom_map_of_conv_image_fst not_None_eq)

lemma delete_event_ofI:
  assumes "map_of (changedb self) u = Some entry" and "map_of entry ''dn'' = Some dn"
    and "post_change dn [] entry ''delete'' = Inr js"
  shows "delete_event_of self u js"
proof -
  from assms(3) have "stringify (PDict []) = Inr (js_new_attributes js)" by (rule post_change_Inr(4))
  then have "js_new_attributes js = PDict []" by simp
  with assms post_change_Inr(1-3)[OF assms(3)] show ?thesis by (simp add: delete_event_of_def)
qed

lemma delete_event_of_cong:
  "map_of (changedb self1) u = map_of (changedb self) u \<Longrightarrow>
   delete_event_of self1 u js = delete_event_of self u js"
  by (simp add: delete_event_of_def)

lemma delete_loop_ok:
  assumes "distinct ks"
    and "\<forall>u\<in>set ks. \<exists>entry d. map_of (changedb self) u = Some entry
           \<and> map_of entry ''dn'' = Some (PStr d) \<and> decodable (PDict entry)"
  shows "\<exists>ps. delete_loop ks self
            = Done (self\<lparr>changedb := filter (\<lambda>kv. fst kv \<notin> set ks) (changedb self)\<rparr>) ps
          \<and> list_all2 (delete_event_of self) ks ps"
  using assms
proof (induction ks arbitrary: self)
  case Nil
  then show ?case by simp
next
  case (Cons u ks)
  let ?self1 = "self\<lparr>changedb := AList.delete u (changedb self)\<rparr>"
  from Cons.prems(2) obtain entry d where
    e: "map_of (changedb self) u = Some entry" and d: "map_of entry ''dn'' = Some (PStr d)"
    and dec: "decodable (PDict entry)" by auto
  obtain js where js: "post_change (PStr d) [] entry ''delete'' = Inr js"
    using post_change_decodable[of "PStr d" "[]" entry "''delete''"] dec by auto
  have same: "map_of (changedb ?self1) u' = map_of (changedb self) u'" if "u' \<in> set ks" for u'
    using that Cons.prems(1) by (auto simp: delete_conv')
  have "distinct ks" using Cons.prems(1) by simp
  moreover have "\<forall>u'\<in>set ks. \<exists>entry d. map_of (changedb ?self1) u' = Some entry
           \<and> map_of entry ''dn'' = Some (PStr d) \<and> decodable (PDict entry)"
    using Cons.prems(2) same by simp
  ultimately obtain ps where
    run: "delete_loop ks ?self1
            = Done (?self1\<lparr>changedb := filter (\<lambda>kv. fst kv \<notin> set ks) (changedb ?self1)\<rparr>) ps"
    and evs: "list_all2 (delete_event_of ?self1) ks ps"
    using Cons.IH[of ?self1] by blast
  have "list_all2 (delete_event_of self) ks ps"
    using evs by (rule list.rel_mono_strong) (simp add: delete_event_of_cong[OF same])
  moreover have "delete_event_of self u js" using e d js by (rule delete_event_ofI)
  moreover have "?self1\<lparr>changedb := filter (\<lambda>kv. fst kv \<notin> set ks) (changedb ?self1)\<rparr>
      = self\<lparr>changedb := filter (\<lambda>kv. fst kv \<notin> set (u # ks)) (changedb self)\<rparr>"
    by (simp add: AList.delete_eq case_prod_beta eq_commute[of u])
  ultimately show ?case using e d js run by simp
qed

lemma filter_known_out:
  "filter (\<lambda>kv. fst kv \<notin> set (filter (\<lambda>u. u \<in> fst ` set db) uuids)) db
     = filter (\<lambda>kv. fst kv \<notin> set uuids) db"
  by (rule filter_cong) auto

text \<open>
  When every \<open>bytes\<close> object among the stored attributes of the known identifiers of
  \<open>uuids\<close> is well-formed UTF-8 and none of them is listed twice, \<open>syncrepl_delete(uuids)\<close>
  publishes one Delete event for each of them, in the order of \<open>uuids\<close>, and removes them
  from \<open>changedb\<close>; nothing is assumed of \<open>sync_done\<close>.
\<close>

lemma syncrepl_delete_ok:
  assumes "wf_client self"
    and "distinct (filter (\<lambda>u. u \<in> fst ` set (changedb self)) uuids)"
    and "\<forall>u\<in>set uuids. \<forall>entry. map_of (changedb self) u = Some entry \<longrightarrow> decodable (PDict entry)"
  shows "\<exists>ps. syncrepl_delete uuids self
            = Done (self\<lparr>changedb := filter (\<lambda>kv. fst kv \<notin> set uuids) (changedb self)\<rparr>) ps
          \<and> list_all2 (delete_event_of self) (filter (\<lambda>u. u \<in> fst ` set (changedb self)) uuids) ps"
proof -
  let ?ks = "filter (\<lambda>u. u \<in> fst ` set (changedb self)) uuids"
  have "\<forall>u\<in>set ?ks. \<exists>entry d. map_of (changedb self) u = Some entry
           \<and> map_of entry ''dn'' = Some (PStr d) \<and> decodable (PDict entry)"
  proof
    fix u assume u: "u \<in> set ?ks"
    then obtain entry where e: "map_of (changedb self) u = Some entry" by (auto simp: known_iff)
    from assms(1) e obtain d where "map_of entry ''dn'' = Some (PStr d)" by (rule wf_client_dn)
    moreover have "decodable (PDict entry)" using assms(3) u e by auto
    ultimately show "\<exists>entry d. map_of (changedb self) u = Some entry
           \<and> map_of entry ''dn'' = Some (PStr d) \<and> decodable (PDict entry)" using e by blast
  qed
  from delete_loop_ok[OF assms(2) this] show ?thesis
    by (simp only: syncrepl_delete_def filter_known_out)
qed

lemmas eval_defs = syncrepl_delete_def syncrepl_entry_def classify_def post_change_def
  str_utf8_def byte_in_def init_def wf_client_def has_dn_def delete_event_of_def
  syncrepl_present_def syncrepl_refreshdone_def

text \<open>
  C2.  \<open>syncrepl_delete\<close> does not publish a Delete event for every identifier that
  \<open>changedb\<close> knows.  An entry stored during the refresh with a value that is not UTF-8
  (here the first two bytes of a JPEG file) cannot be published: \<open>post_change\<close> lets the
  \<open>UnicodeDecodeError\<close> of \<open>stringify\<close> through, so nothing is sent for the identifier and
  it is not removed.  The same session with a value that is UTF-8 publishes the Delete
  event, with the stored dn, the stored attributes as the old attributes and an empty
  dict as the new ones, and removes the identifier, the phase being the refresh phase.
\<close>

theorem syncrepl_delete_raises:
  "run [OnEntry ''cn=a'' [(''jpegPhoto'', PList [PBytes [CHR 0xFF, CHR 0xD8]])] ''u1'',
        OnDelete [''u1'']] init
     = Raised UnicodeDecodeError []
   \<and> run [OnEntry ''cn=a'' [(''cn'', PList [PBytes ''a''])] ''u1'', OnDelete [''u1'']] init
     = Done (init\<lparr>changedb := []\<rparr>)
         [\<lparr>js_dn = PStr ''cn=a'', js_change_type = ''delete'',
           js_old_attributes = PDict [(''cn'', PList [PStr ''a'']), (''dn'', PStr ''cn=a'')],
           js_new_attributes = PDict []\<rparr>]"
  by (simp add: eval_defs)

text \<open>
  A call none of whose identifiers is known does nothing at all.
\<close>

lemma syncrepl_delete_unknown:
  "set uuids \<inter> fst ` set (changedb self) = {} \<Longrightarrow> syncrepl_delete uuids self = Done self []"
proof -
  assume "set uuids \<inter> fst ` set (changedb self) = {}"
  then have "filter (\<lambda>u. u \<in> fst ` set (changedb self)) uuids = []"
    by (auto simp: filter_empty_conv)
  then show ?thesis by (simp add: syncrepl_delete_def)
qed

lemma syncrepl_delete_one:
  assumes "wf_client self" and "map_of (changedb self) u = Some entry"
    and "decodable (PDict entry)"
  shows "\<exists>js. syncrepl_delete [u] self
            = Done (self\<lparr>changedb := filter (\<lambda>kv. fst kv \<noteq> u) (changedb self)\<rparr>) [js]
          \<and> delete_event_of self u js"
proof -
  have k: "u \<in> fst ` set (changedb self)" using assms(2) by (auto simp: known_iff)
  then have f: "filter (\<lambda>u. u \<in> fst ` set (changedb self)) [u] = [u]" by simp
  have "distinct (filter (\<lambda>u. u \<in> fst ` set (changedb self)) [u])" by simp
  moreover have "\<forall>u'\<in>set [u]. \<forall>entry. map_of (changedb self) u' = Some entry \<longrightarrow> decodable (PDict entry)"
    using assms(2,3) by simp
  ultimately obtain ps where
    "syncrepl_delete [u] self
       = Done (self\<lparr>changedb := filter (\<lambda>kv. fst kv \<notin> set [u]) (changedb self)\<rparr>) ps"
    and "list_all2 (delete_event_of self) (filter (\<lambda>u. u \<in> fst ` set (changedb self)) [u]) ps"
    using syncrepl_delete_ok[OF assms(1), of "[u]"] by blast
  then show ?thesis unfolding f by (auto simp: list_all2_Cons1)
qed

text \<open>
  C5.  The first of two \<open>syncrepl_delete\<close> calls for an identifier does not always
  publish its Delete event: for an identifier whose stored attributes are not UTF-8 (here
  a one-byte \<open>objectGUID\<close>, stored by an entry callback during the refresh) the first call
  publishes nothing and raises the \<open>UnicodeDecodeError\<close> that \<open>post_change\<close> lets through.
\<close>

theorem syncrepl_delete_twice_raises:
  "run [OnEntry ''cn=c'' [(''objectGUID'', PList [PBytes [CHR 0x80]])] ''u3''] init
     = Done (init\<lparr>changedb := [(''u3'', [(''objectGUID'', PList [PBytes [CHR 0x80]]),
                                          (''dn'', PStr ''cn=c'')])]\<rparr>) []
   \<and> syncrepl_delete [''u3'']
        (init\<lparr>changedb := [(''u3'', [(''objectGUID'', PList [PBytes [CHR 0x80]]),
                                     (''dn'', PStr ''cn=c'')])]\<rparr>)
     = Raised UnicodeDecodeError []"
  by (simp add: eval_defs)

subsection \<open>The end of the presence phase\<close>

lemma distinct_single: "distinct xs \<Longrightarrow> set xs = {c} \<Longrightarrow> xs = [c]"
proof (cases xs)
  case Nil
  assume "set xs = {c}" with Nil show ?thesis by simp
next
  case (Cons a r)
  assume d: "distinct xs" and s: "set xs = {c}"
  from s Cons have a: "a = c" by auto
  have "r = []"
  proof (cases r)
    case Nil then show ?thesis .
  next
    case (Cons b r')
    with s \<open>xs = a # r\<close> have "b = c" by auto
    with d \<open>xs = a # r\<close> Cons a show ?thesis by simp
  qed
  with a Cons show ?thesis by simp
qed

text \<open>
  When \<open>changedb\<close> holds exactly A, B and C, with C not marked present, and every
  \<open>bytes\<close> object among the stored attributes of C is well-formed UTF-8, the two calls
  publish the Delete event of C and nothing else.
\<close>

lemma presence_end_deletes:
  assumes wf: "wf_client self"
    and keys: "fst ` set (changedb self) = {A, B, C}"
    and ne: "C \<noteq> A" "C \<noteq> B"
    and np: "C \<notin> presentUUIDs self"
    and nc: "C \<noteq> ''ldap_cookie''"
    and e: "map_of (changedb self) C = Some entry"
    and dec: "decodable (PDict entry)"
  shows "\<exists>js. run [OnPresent (Some [A, B]) False, OnPresent None False] self
            = Done (self\<lparr>changedb := filter (\<lambda>kv. fst kv \<noteq> C) (changedb self),
                          presentUUIDs := {}\<rparr>) [js]
          \<and> delete_event_of self C js"
proof -
  let ?self1 = "self\<lparr>presentUUIDs := presentUUIDs self \<union> set [A, B]\<rparr>"
  let ?gone = "filter (\<lambda>uuid. uuid \<notin> presentUUIDs ?self1 \<and> uuid \<noteq> ''ldap_cookie'')
                 (map fst (changedb ?self1))"
  have 1: "syncrepl_present (Some [A, B]) False self = Done ?self1 []"
    by (simp add: syncrepl_present_def)
  have "distinct ?gone" using wf by (simp add: wf_client_def)
  moreover have "set ?gone = {C}" using keys ne np nc by auto
  ultimately have gone: "?gone = [C]" by (rule distinct_single)
  have wf1: "wf_client ?self1" using wf by (simp add: wf_client_def)
  have e1: "map_of (changedb ?self1) C = Some entry" using e by simp
  from syncrepl_delete_one[OF wf1 e1 dec] obtain js where
    d: "syncrepl_delete [C] ?self1
          = Done (?self1\<lparr>changedb := filter (\<lambda>kv. fst kv \<noteq> C) (changedb ?self1)\<rparr>) [js]"
    and ev: "delete_event_of ?self1 C js" by blast
  have 2: "syncrepl_present None False ?self1
      = Done (self\<lparr>changedb := filter (\<lambda>kv. fst kv \<noteq> C) (changedb self),
                          presentUUIDs := {}\<rparr>) [js]"
    unfolding syncrepl_present_def using d gone by simp
  have "delete_event_of self C js" using ev by (simp add: delete_event_of_def)
  with 1 2 show ?thesis by simp
qed

text \<open>
  C4.  \<open>changedb\<close> holds exactly the identifiers A, B and C, none of them marked present,
  and the stored attributes of C hold a value that is not UTF-8 (here the first two bytes
  of a JPEG file, stored by an entry callback during the refresh).  Then
  \<open>syncrepl_present([A, B], False)\<close> followed by \<open>syncrepl_present(None, False)\<close> publishes
  no Delete event for C: \<open>post_change\<close> lets the \<open>UnicodeDecodeError\<close> of \<open>stringify\<close>
  through, and C is not removed.  With a value that is UTF-8 in its place the Delete event
  of C is the one event published, and A and B remain.
\<close>

theorem presence_deletion_not_inferred:
  "run [OnEntry ''cn=a'' [] ''uA'', OnEntry ''cn=b'' [] ''uB'',
        OnEntry ''cn=c'' [(''jpegPhoto'', PList [PBytes [CHR 0xFF, CHR 0xD8]])] ''uC''] init
     = Done (init\<lparr>changedb :=
               [(''uA'', [(''dn'', PStr ''cn=a'')]),
                (''uB'', [(''dn'', PStr ''cn=b'')]),
                (''uC'', [(''jpegPhoto'', PList [PBytes [CHR 0xFF, CHR 0xD8]]),
                          (''dn'', PStr ''cn=c'')])]\<rparr>) []
   \<and> run [OnPresent (Some [''uA'', ''uB'']) False, OnPresent None False]
         (init\<lparr>changedb :=
               [(''uA'', [(''dn'', PStr ''cn=a'')]),
                (''uB'', [(''dn'', PStr ''cn=b'')]),
                (''uC'', [(''jpegPhoto'', PList [PBytes [CHR 0xFF, CHR 0xD8]]),
                          (''dn'', PStr ''cn=c'')])]\<rparr>)
     = Raised UnicodeDecodeError []
   \<and> run [OnPresent (Some [''uA'', ''uB'']) False, OnPresent None False] three_entries
     = Done (init\<lparr>changedb := [(''uA'', [(''dn'', PStr ''cn=a'')]),
                                 (''uB'', [(''dn'', PStr ''cn=b'')])]\<rparr>)
         [\<lparr>js_dn = PStr ''cn=c'', js_change_type = ''delete'',
           js_old_attributes = PDict [(''cn'', PList [PStr ''c'']), (''dn'', PStr ''cn=c'')],
           js_new_attributes = PDict []\<rparr>]"
  by (simp add: three_entries_def eval_defs)

subsection \<open>What is published during the refresh\<close>


lemma syncrepl_delete_Done:
  "syncrepl_delete uuids self = Done self' ps \<Longrightarrow>
   self' = self\<lparr>changedb := filter (\<lambda>kv. fst kv \<notin> set uuids) (changedb self)\<rparr>"
  unfolding syncrepl_delete_def by (drule delete_loop_Done) (simp only: filter_known_out)



lemma syncrepl_entry_refreshing:
  "\<not> sync_done self \<Longrightarrow>
   syncrepl_entry dn attributes uuid self
     = Done (self\<lparr>changedb :=
               AList.update uuid (AList.update ''dn'' (PStr dn) attributes) (changedb self)\<rparr>) []"
  by (simp add: syncrepl_entry_def split: prod.splits)







subsection \<open>A session of entry callbacks\<close>

lemma run_entry_calls:
  "\<not> sync_done self \<Longrightarrow>
   run (entry_calls es) self = Done (self\<lparr>changedb := foldl store_entry (changedb self) es\<rparr>) []"
proof (induction es arbitrary: self)
  case Nil
  then show ?case by (simp add: entry_calls_def)
next
  case (Cons e es)
  obtain dn a u where e: "e = (dn, a, u)" by (cases e)
  let ?self1 = "self\<lparr>changedb := store_entry (changedb self) e\<rparr>"
  have 1: "dispatch (OnEntry dn a u) self = Done ?self1 []"
    using Cons.prems e by (simp add: syncrepl_entry_refreshing store_entry_def)
  have "\<not> sync_done ?self1" using Cons.prems by simp
  from Cons.IH[OF this] have "run (entry_calls es) ?self1
      = Done (self\<lparr>changedb := foldl store_entry (changedb self) (e # es)\<rparr>) []" by simp
  with 1 e show ?case by (simp add: entry_calls_def)
qed

lemma latest_entry_None: "latest_entry es u = None \<longleftrightarrow> u \<notin> (\<lambda>(dn, a, u). u) ` set es"
proof (induction es)
  case Nil
  then show ?case by simp
next
  case (Cons e es)
  obtain dn a u' where e: "e = (dn, a, u')" by (cases e)
  show ?case
  proof (cases "latest_entry es u")
    case None
    with Cons.IH e show ?thesis by auto
  next
    case (Some m)
    with Cons.IH e show ?thesis by auto
  qed
qed

lemma map_of_foldl_store:
  "map_of (foldl store_entry db es) u
     = (case latest_entry es u of None \<Rightarrow> map_of db u | Some m \<Rightarrow> Some m)"
proof (induction es arbitrary: db)
  case Nil
  then show ?case by simp
next
  case (Cons e es)
  obtain dn a u' where e: "e = (dn, a, u')" by (cases e)
  have st: "map_of (store_entry db (dn, a, x)) u
          = (if x = u then Some (AList.update ''dn'' (PStr dn) a) else map_of db u)" for x
    by (simp add: store_entry_def update_conv')
  show ?case unfolding e
    by (simp add: Cons.IH st split: option.splits)
qed

lemma keys_update: "fst ` set (AList.update k v al) = insert k (fst ` set al)"
proof -
  have "set (map fst (AList.update k v al)) = insert k (set (map fst al))"
    by (auto simp: update_keys)
  then show ?thesis by simp
qed

lemma keys_foldl_store:
  "fst ` set (foldl store_entry db es) = fst ` set db \<union> (\<lambda>(dn, a, u). u) ` set es"
proof (induction es arbitrary: db)
  case Nil
  then show ?case by simp
next
  case (Cons e es)
  obtain dn a u' where e: "e = (dn, a, u')" by (cases e)
  have "fst ` set (store_entry db (dn, a, u')) = insert u' (fst ` set db)"
    by (simp add: store_entry_def keys_update)
  then show ?case unfolding e by (simp add: Cons.IH)
qed

lemma classify_map_of:
  "classify self u
     = (case map_of (changedb self) u of None \<Rightarrow> (''add'', []) | Some prev \<Rightarrow> (''modify'', prev))"
  by (simp add: classify_def split: option.splits)

lemma syncrepl_entry_persisting:
  assumes "sync_done self"
    and "syncrepl_entry dn attributes uuid self = Done self' ps"
  obtains js new' where "ps = [js]"
    and "post_change (PStr dn) (AList.update ''dn'' (PStr dn) attributes)
           (snd (classify self uuid)) (fst (classify self uuid)) = Inr js"
    and "dict_loop (AList.update ''dn'' (PStr dn) attributes) = Inr new'"
    and "js_new_attributes js = PDict new'"
    and "self' = self\<lparr>changedb := AList.update uuid new' (changedb self)\<rparr>"
proof -
  from assms obtain js where
    pc: "post_change (PStr dn) (AList.update ''dn'' (PStr dn) attributes)
           (snd (classify self uuid)) (fst (classify self uuid)) = Inr js"
    and ps: "ps = [js]"
    and s': "self' = self\<lparr>changedb :=
               AList.update uuid (dict_items (js_new_attributes js)) (changedb self)\<rparr>"
    by (auto simp: syncrepl_entry_def split: prod.splits sum.splits)
  from post_change_Inr(4)[OF pc] obtain new' where
    "js_new_attributes js = PDict new'"
    and "dict_loop (AList.update ''dn'' (PStr dn) attributes) = Inr new'"
    by (rule stringify_PDict_Inr)
  with pc ps s' show thesis using that by simp
qed

lemma list_all_update:
  "list_all P al \<Longrightarrow> P (k, v) \<Longrightarrow> list_all P (AList.update k v al)"
  by (induction al) auto

lemma run_Cons_Done:
  assumes "run (c # cs) self = Done self' ps"
  obtains self1 ps1 ps2 where "dispatch c self = Done self1 ps1"
    and "run cs self1 = Done self' ps2" and "ps = ps1 @ ps2"
proof (cases "dispatch c self")
  case (Done self1 ps1)
  with assms show thesis using that by (cases "run cs self1") simp_all
next
  case (Raised e qs)
  with assms show thesis by simp
qed

lemma stringify_PDict: "stringify (PDict d) = (case dict_loop d of Inl e \<Rightarrow> Inl e | Inr d' \<Rightarrow> Inr (PDict d'))"
  by simp

lemma convertsI: "stringify v = Inr y \<Longrightarrow> converts v"
  by (simp add: converts_def)

lemma convertsE:
  assumes "converts v"
  obtains y where "stringify v = Inr y"
  using assms by (cases "stringify v") (simp_all add: converts_def)

lemma run_entries_persisting:
  assumes "sync_done self" and "run (entry_calls es) self = Done self' ps"
  shows "sync_done self'
         \<and> fst ` set (changedb self') = fst ` set (changedb self) \<union> (\<lambda>(dn, a, u). u) ` set es
         \<and> length ps = length es
         \<and> (\<forall>uuid. case latest_entry es uuid of
               None \<Rightarrow> map_of (changedb self') uuid = map_of (changedb self) uuid
             | Some raw \<Rightarrow> \<exists>m. map_of (changedb self') uuid = Some m
                               \<and> stringify (PDict raw) = Inr (PDict m))"
  using assms
proof (induction es arbitrary: self ps)
  case Nil
  then show ?case by (simp add: entry_calls_def)
next
  case (Cons e es)
  obtain dn a u where e: "e = (dn, a, u)" by (cases e)
  from Cons.prems(2) e have "run (OnEntry dn a u # entry_calls es) self = Done self' ps"
    by (simp add: entry_calls_def)
  then obtain self1 ps1 ps2 where d: "dispatch (OnEntry dn a u) self = Done self1 ps1"
    and r: "run (entry_calls es) self1 = Done self' ps2" and ps: "ps = ps1 @ ps2"
    by (rule run_Cons_Done)
  from d have d': "syncrepl_entry dn a u self = Done self1 ps1" by simp
  from Cons.prems(1) d' obtain js new' where ps1: "ps1 = [js]"
    and dl: "dict_loop (AList.update ''dn'' (PStr dn) a) = Inr new'"
    and s1: "self1 = self\<lparr>changedb := AList.update u new' (changedb self)\<rparr>"
    by (rule syncrepl_entry_persisting)
  from s1 Cons.prems(1) have sd1: "sync_done self1" by simp
  from Cons.IH[OF sd1 r] have i1: "sync_done self'"
    and i2: "fst ` set (changedb self') = fst ` set (changedb self1) \<union> (\<lambda>(dn, a, u). u) ` set es"
    and i3: "length ps2 = length es"
    and i4: "\<And>uuid. case latest_entry es uuid of
               None \<Rightarrow> map_of (changedb self') uuid = map_of (changedb self1) uuid
             | Some raw \<Rightarrow> \<exists>m. map_of (changedb self') uuid = Some m
                               \<and> stringify (PDict raw) = Inr (PDict m)"
    by blast+
  have k1: "fst ` set (changedb self1) = insert u (fst ` set (changedb self))"
    using s1 by (simp add: keys_update)
  have m1: "map_of (changedb self1) uuid = (if u = uuid then Some new' else map_of (changedb self) uuid)"
    for uuid using s1 by (simp add: update_conv')
  have st: "stringify (PDict (AList.update ''dn'' (PStr dn) a)) = Inr (PDict new')"
    using dl by (simp only: stringify_PDict sum.case)
  have "case latest_entry (e # es) uuid of
               None \<Rightarrow> map_of (changedb self') uuid = map_of (changedb self) uuid
             | Some raw \<Rightarrow> \<exists>m. map_of (changedb self') uuid = Some m
                               \<and> stringify (PDict raw) = Inr (PDict m)" for uuid
  proof (cases "latest_entry es uuid")
    case (Some raw)
    with i4[of uuid] e show ?thesis by simp
  next
    case None
    with i4[of uuid] have "map_of (changedb self') uuid = map_of (changedb self1) uuid" by simp
    with None e m1[of uuid] st show ?thesis by simp
  qed
  moreover have "fst ` set (changedb self')
      = fst ` set (changedb self) \<union> (\<lambda>(dn, a, u). u) ` set (e # es)"
    using i2 k1 e by auto
  moreover have "length ps = length (e # es)" using ps ps1 i3 by simp
  ultimately show ?case using i1 by blast
qed

lemma run_entries_state:
  assumes "run (entry_calls es) self = Done self' ps"
  shows "sync_done self' = sync_done self
         \<and> fst ` set (changedb self') = fst ` set (changedb self) \<union> (\<lambda>(dn, a, u). u) ` set es
         \<and> length ps = (if sync_done self then length es else 0)
         \<and> (\<forall>uuid. case latest_entry es uuid of
               None \<Rightarrow> map_of (changedb self') uuid = map_of (changedb self) uuid
             | Some raw \<Rightarrow>
                 if sync_done self
                 then \<exists>m. map_of (changedb self') uuid = Some m
                          \<and> stringify (PDict raw) = Inr (PDict m)
                 else map_of (changedb self') uuid = Some raw)"
proof (cases "sync_done self")
  case True
  note p = run_entries_persisting[OF True assms]
  from p have q: "\<And>uuid. case latest_entry es uuid of
               None \<Rightarrow> map_of (changedb self') uuid = map_of (changedb self) uuid
             | Some raw \<Rightarrow> \<exists>m. map_of (changedb self') uuid = Some m
                               \<and> stringify (PDict raw) = Inr (PDict m)"
    by blast
  have "case latest_entry es uuid of
               None \<Rightarrow> map_of (changedb self') uuid = map_of (changedb self) uuid
             | Some raw \<Rightarrow>
                 if sync_done self
                 then \<exists>m. map_of (changedb self') uuid = Some m
                          \<and> stringify (PDict raw) = Inr (PDict m)
                 else map_of (changedb self') uuid = Some raw" for uuid
    using q[of uuid] True by (cases "latest_entry es uuid") (simp_all del: stringify.simps)
  with p True show ?thesis by simp
next
  case False
  from run_entry_calls[OF False, of es] assms
  have s: "self' = self\<lparr>changedb := foldl store_entry (changedb self) es\<rparr>" and p: "ps = []"
    by simp_all
  have "case latest_entry es uuid of
               None \<Rightarrow> map_of (changedb self') uuid = map_of (changedb self) uuid
             | Some raw \<Rightarrow>
                 if sync_done self
                 then \<exists>m. map_of (changedb self') uuid = Some m
                          \<and> stringify (PDict raw) = Inr (PDict m)
                 else map_of (changedb self') uuid = Some raw" for uuid
    using s False by (cases "latest_entry es uuid") (simp_all add: map_of_foldl_store)
  moreover have "fst ` set (changedb self')
      = fst ` set (changedb self) \<union> (\<lambda>(dn, a, u). u) ` set es"
    using s by (simp add: keys_foldl_store)
  moreover have "sync_done self' = sync_done self" using s by simp
  moreover have "length ps = (if sync_done self then length es else 0)" using p False by simp
  ultimately show ?thesis by blast
qed

lemma syncrepl_entry_body:
  assumes "sync_done self" and "syncrepl_entry dn attributes uuid self = Done self' ps"
  shows "\<exists>p. ps = [p] \<and> js_dn p = PStr dn
           \<and> stringify (PDict (AList.update ''dn'' (PStr dn) attributes))
               = Inr (js_new_attributes p)
           \<and> (if uuid \<in> fst ` set (changedb self)
              then js_change_type p = ''modify''
                   \<and> (\<exists>prev. map_of (changedb self) uuid = Some prev
                          \<and> stringify (PDict prev) = Inr (js_old_attributes p))
              else js_change_type p = ''add'' \<and> js_old_attributes p = PDict [])"
proof -
  from assms obtain js where ps: "ps = [js]"
    and pc: "post_change (PStr dn) (AList.update ''dn'' (PStr dn) attributes)
           (snd (classify self uuid)) (fst (classify self uuid)) = Inr js"
    by (rule syncrepl_entry_persisting)
  note f = post_change_Inr[OF pc]
  from f(2) have dn: "js_dn js = PStr dn" by simp
  have "if uuid \<in> fst ` set (changedb self)
        then js_change_type js = ''modify''
             \<and> (\<exists>prev. map_of (changedb self) uuid = Some prev
                    \<and> stringify (PDict prev) = Inr (js_old_attributes js))
        else js_change_type js = ''add'' \<and> js_old_attributes js = PDict []"
  proof (cases "map_of (changedb self) uuid")
    case None
    then have "uuid \<notin> fst ` set (changedb self)" by (simp add: known_iff)
    moreover from None have "classify self uuid = (''add'', [])" by (simp add: classify_map_of)
    ultimately show ?thesis using f(1,3) by simp
  next
    case (Some prev)
    then have "uuid \<in> fst ` set (changedb self)" by (simp add: known_iff)
    moreover from Some have "classify self uuid = (''modify'', prev)" by (simp add: classify_map_of)
    ultimately show ?thesis using f(1,3) Some by simp
  qed
  with ps dn f(4) show ?thesis by blast
qed

lemma syncrepl_entry_returns:
  assumes "sync_done self"
    and "list_all (\<lambda>kv. converts (PDict (snd kv))) (changedb self)"
    and "converts (PDict (AList.update ''dn'' (PStr dn) attributes))"
  shows "\<exists>self' ps. syncrepl_entry dn attributes uuid self = Done self' ps"
proof -
  from assms(3) obtain new' where n: "stringify (PDict (AList.update ''dn'' (PStr dn) attributes)) = Inr new'"
    by (rule convertsE)
  have "\<exists>old'. stringify (PDict (snd (classify self uuid))) = Inr old'"
  proof (cases "map_of (changedb self) uuid")
    case None
    then show ?thesis by (simp add: classify_map_of)
  next
    case (Some prev)
    then have "(uuid, prev) \<in> set (changedb self)" by (rule map_of_SomeD)
    with assms(2) have "converts (PDict prev)" by (auto simp: list_all_iff)
    then obtain y where "stringify (PDict prev) = Inr y" by (rule convertsE)
    with Some show ?thesis by (simp add: classify_map_of)
  qed
  then obtain old' where o: "stringify (PDict (snd (classify self uuid))) = Inr old'" ..
  have "post_change (PStr dn) (AList.update ''dn'' (PStr dn) attributes)
           (snd (classify self uuid)) (fst (classify self uuid))
        = Inr \<lparr>js_dn = PStr dn, js_change_type = fst (classify self uuid),
               js_old_attributes = old', js_new_attributes = new'\<rparr>"
  proof -
    have d: "stringify (PStr dn) = Inr (PStr dn)" by simp
    show ?thesis using n o d by (simp add: post_change_def del: stringify.simps)
  qed
  moreover obtain ct prev where "classify self uuid = (ct, prev)"
    by (cases "classify self uuid")
  ultimately show ?thesis using assms(1)
    by (simp add: syncrepl_entry_def Let_def del: stringify.simps)
qed

lemma run_entries_returns:
  assumes "sync_done self"
    and "list_all (\<lambda>kv. converts (PDict (snd kv))) (changedb self)"
    and "list_all (\<lambda>(dn, attributes, uuid).
           converts (PDict (AList.update ''dn'' (PStr dn) attributes))) es"
  shows "\<exists>self' ps. run (entry_calls es) self = Done self' ps"
  using assms
proof (induction es arbitrary: self)
  case Nil
  then show ?case by (simp add: entry_calls_def)
next
  case (Cons e es)
  obtain dn a u where e: "e = (dn, a, u)" by (cases e)
  from Cons.prems(3) e have c: "converts (PDict (AList.update ''dn'' (PStr dn) a))"
    and rest: "list_all (\<lambda>(dn, attributes, uuid).
           converts (PDict (AList.update ''dn'' (PStr dn) attributes))) es" by simp_all
  from syncrepl_entry_returns[OF Cons.prems(1,2) c] obtain self1 ps1 where
    d: "syncrepl_entry dn a u self = Done self1 ps1" by blast
  from Cons.prems(1) d obtain js new' where
    dl: "dict_loop (AList.update ''dn'' (PStr dn) a) = Inr new'"
    and s1: "self1 = self\<lparr>changedb := AList.update u new' (changedb self)\<rparr>"
    by (rule syncrepl_entry_persisting)
  have "stringify (PDict (AList.update ''dn'' (PStr dn) a)) = Inr (PDict new')"
    using dl by (simp only: stringify_PDict sum.case)
  then have "stringify (PDict new') = Inr (PDict new')" by (rule stringify_idem)
  then have "converts (PDict new')" by (rule convertsI)
  with Cons.prems(2) s1 have inv: "list_all (\<lambda>kv. converts (PDict (snd kv))) (changedb self1)"
    by (simp add: list_all_update)
  from s1 Cons.prems(1) have sd1: "sync_done self1" by simp
  from Cons.IH[OF sd1 inv rest] obtain self' ps where "run (entry_calls es) self1 = Done self' ps"
    by blast
  with d e show ?case by (simp add: entry_calls_def)
qed


text \<open>
  C3.  A session of entry callbacks only, from a client whose \<open>changedb\<close> is empty and
  whose \<open>sync_done\<close> is still false (as it is as long as the callbacks are entry callbacks
  only), never raises and publishes nothing; afterwards \<open>changedb\<close> holds exactly the
  identifiers that occurred, each with the dict of its latest call (which line 55 has
  given the \<open>'dn'\<close> key).  From whatever client the session starts, when it returns the
  identifiers of \<open>changedb\<close> are those it held and those that occurred, and an identifier
  that occurred is mapped to the dict of its latest call, in the persist phase as
  \<open>stringify\<close> has rewritten it; in the persist phase one body is published for each
  call.  What a call of the persist phase hands to \<open>post_change\<close> is seen in the body it
  publishes: the dn and the dict of the call as the new attributes, and change type
  \<open>'add'\<close> with an empty dict as the old attributes when the identifier was not held at
  the start and has not occurred before, change type \<open>'modify'\<close> with the dict stored
  under the identifier as the old attributes otherwise.  In the persist phase the session
  returns when \<open>stringify\<close> returns on every stored dict and on the dict of every call.
\<close>

theorem entries_stored_and_classified:
  "(changedb self = [] \<and> \<not> sync_done self \<longrightarrow>
      (\<exists>self'. run (entry_calls es) self = Done self' []
         \<and> fst ` set (changedb self') = (\<lambda>(dn, attributes, uuid). uuid) ` set es
         \<and> (\<forall>uuid. map_of (changedb self') uuid = latest_entry es uuid)))
   \<and> (run (entry_calls es) self = Done self' ps \<longrightarrow>
        sync_done self' = sync_done self
        \<and> fst ` set (changedb self')
            = fst ` set (changedb self) \<union> (\<lambda>(dn, attributes, uuid). uuid) ` set es
        \<and> length ps = (if sync_done self then length es else 0)
        \<and> (\<forall>uuid. case latest_entry es uuid of
               None \<Rightarrow> map_of (changedb self') uuid = map_of (changedb self) uuid
             | Some raw \<Rightarrow>
                 if sync_done self
                 then \<exists>m. map_of (changedb self') uuid = Some m
                          \<and> stringify (PDict raw) = Inr (PDict m)
                 else map_of (changedb self') uuid = Some raw))
   \<and> (sync_done self \<and> run (entry_calls pre) self = Done self1 ps1
        \<and> syncrepl_entry dn attributes uuid self1 = Done self2 ps2 \<longrightarrow>
        (\<exists>p. ps2 = [p] \<and> js_dn p = PStr dn
           \<and> stringify (PDict (AList.update ''dn'' (PStr dn) attributes))
               = Inr (js_new_attributes p)
           \<and> (if uuid \<in> fst ` set (changedb self)
                         \<union> (\<lambda>(dn, attributes, uuid). uuid) ` set pre
              then js_change_type p = ''modify''
                   \<and> (\<exists>prev. map_of (changedb self1) uuid = Some prev
                          \<and> stringify (PDict prev) = Inr (js_old_attributes p))
              else js_change_type p = ''add'' \<and> js_old_attributes p = PDict [])))
   \<and> (sync_done self
        \<and> list_all (\<lambda>kv. converts (PDict (snd kv))) (changedb self)
        \<and> list_all (\<lambda>(dn, attributes, uuid).
             converts (PDict (AList.update ''dn'' (PStr dn) attributes))) es \<longrightarrow>
        (\<exists>self' ps. run (entry_calls es) self = Done self' ps))"
proof (intro conjI impI)
  assume a: "changedb self = [] \<and> \<not> sync_done self"
  let ?self' = "self\<lparr>changedb := foldl store_entry (changedb self) es\<rparr>"
  have "run (entry_calls es) self = Done ?self' []"
    using a by (simp add: run_entry_calls)
  moreover have "fst ` set (changedb ?self') = (\<lambda>(dn, attributes, uuid). uuid) ` set es"
    using a by (simp add: keys_foldl_store)
  moreover have "\<forall>uuid. map_of (changedb ?self') uuid = latest_entry es uuid"
    using a by (simp add: map_of_foldl_store split: option.splits)
  ultimately show "\<exists>self'. run (entry_calls es) self = Done self' []
         \<and> fst ` set (changedb self') = (\<lambda>(dn, attributes, uuid). uuid) ` set es
         \<and> (\<forall>uuid. map_of (changedb self') uuid = latest_entry es uuid)"
    by blast
next
  assume r: "run (entry_calls es) self = Done self' ps"
  note s = run_entries_state[OF r]
  show "sync_done self' = sync_done self" using s by (rule conjunct1)
  show "fst ` set (changedb self')
            = fst ` set (changedb self) \<union> (\<lambda>(dn, attributes, uuid). uuid) ` set es"
    using s by blast
  show "length ps = (if sync_done self then length es else 0)" using s by blast
  show "\<forall>uuid. case latest_entry es uuid of
               None \<Rightarrow> map_of (changedb self') uuid = map_of (changedb self) uuid
             | Some raw \<Rightarrow>
                 if sync_done self
                 then \<exists>m. map_of (changedb self') uuid = Some m
                          \<and> stringify (PDict raw) = Inr (PDict m)
                 else map_of (changedb self') uuid = Some raw"
    using s by blast
next
  assume a: "sync_done self \<and> run (entry_calls pre) self = Done self1 ps1
        \<and> syncrepl_entry dn attributes uuid self1 = Done self2 ps2"
  then have sd: "sync_done self" and r: "run (entry_calls pre) self = Done self1 ps1"
    and c: "syncrepl_entry dn attributes uuid self1 = Done self2 ps2" by simp_all
  note s = run_entries_state[OF r]
  from s sd have sd1: "sync_done self1" by simp
  from s have k: "fst ` set (changedb self1)
      = fst ` set (changedb self) \<union> (\<lambda>(dn, attributes, uuid). uuid) ` set pre" by blast
  from syncrepl_entry_body[OF sd1 c]
  show "\<exists>p. ps2 = [p] \<and> js_dn p = PStr dn
           \<and> stringify (PDict (AList.update ''dn'' (PStr dn) attributes))
               = Inr (js_new_attributes p)
           \<and> (if uuid \<in> fst ` set (changedb self)
                         \<union> (\<lambda>(dn, attributes, uuid). uuid) ` set pre
              then js_change_type p = ''modify''
                   \<and> (\<exists>prev. map_of (changedb self1) uuid = Some prev
                          \<and> stringify (PDict prev) = Inr (js_old_attributes p))
              else js_change_type p = ''add'' \<and> js_old_attributes p = PDict [])"
    by (simp only: k)
next
  assume "sync_done self
        \<and> list_all (\<lambda>kv. converts (PDict (snd kv))) (changedb self)
        \<and> list_all (\<lambda>(dn, attributes, uuid).
             converts (PDict (AList.update ''dn'' (PStr dn) attributes))) es"
  then show "\<exists>self' ps. run (entry_calls es) self = Done self' ps"
    using run_entries_returns by blast
qed


theorem entries_stored_and_classified_witness:
  "(\<exists>self'. run (entry_calls [(''cn=a'', [(''cn'', PList [PBytes ''a''])], ''u1''),
                               (''cn=b'', [(''dn'', PStr ''x'')], ''u2''),
                               (''cn=a2'', [], ''u1'')]) init = Done self' []
          \<and> fst ` set (changedb self') = {''u1'', ''u2''}
          \<and> map_of (changedb self') ''u1'' = Some [(''dn'', PStr ''cn=a2'')]
          \<and> map_of (changedb self') ''u2'' = Some [(''dn'', PStr ''cn=b'')]
          \<and> map_of (changedb self') ''u3'' = None)
   \<and> run (entry_calls [(''cn=b'', [], ''u2''), (''cn=a2'', [(''cn'', PList [PBytes ''b''])], ''u1'')])
         (init\<lparr>sync_done := True,
                changedb := [(''u1'', [(''cn'', PList [PBytes ''a'']), (''dn'', PStr ''cn=a'')])]\<rparr>)
       = Done (init\<lparr>sync_done := True,
                changedb := [(''u1'', [(''cn'', PList [PStr ''b'']), (''dn'', PStr ''cn=a2'')]),
                             (''u2'', [(''dn'', PStr ''cn=b'')])]\<rparr>)
           [\<lparr>js_dn = PStr ''cn=b'', js_change_type = ''add'', js_old_attributes = PDict [],
             js_new_attributes = PDict [(''dn'', PStr ''cn=b'')]\<rparr>,
            \<lparr>js_dn = PStr ''cn=a2'', js_change_type = ''modify'',
             js_old_attributes = PDict [(''cn'', PList [PStr ''a'']), (''dn'', PStr ''cn=a'')],
             js_new_attributes = PDict [(''cn'', PList [PStr ''b'']), (''dn'', PStr ''cn=a2'')]\<rparr>]
   \<and> length [\<lparr>js_dn = PStr ''cn=b'', js_change_type = ''add'', js_old_attributes = PDict [],
               js_new_attributes = PDict [(''dn'', PStr ''cn=b'')]\<rparr>,
              \<lparr>js_dn = PStr ''cn=a2'', js_change_type = ''modify'',
               js_old_attributes = PDict [(''cn'', PList [PStr ''a'']), (''dn'', PStr ''cn=a'')],
               js_new_attributes = PDict [(''cn'', PList [PStr ''b'']), (''dn'', PStr ''cn=a2'')]\<rparr>]
       = length [(''cn=b'', [], ''u2''), (''cn=a2'', [(''cn'', PList [PBytes ''b''])], ''u1'')]
   \<and> (\<exists>p. published (syncrepl_entry ''cn=a2'' [(''cn'', PList [PBytes ''b''])] ''u1''
              (init\<lparr>sync_done := True,
                     changedb := [(''u1'', [(''cn'', PList [PBytes ''a'']), (''dn'', PStr ''cn=a'')]),
                                  (''u2'', [(''dn'', PStr ''cn=b'')])]\<rparr>)) = [p]
          \<and> js_change_type p = ''modify''
          \<and> stringify (PDict [(''cn'', PList [PBytes ''a'']), (''dn'', PStr ''cn=a'')])
              = Inr (js_old_attributes p))
   \<and> (\<exists>p. published (syncrepl_entry ''cn=c'' [] ''u3''
              (init\<lparr>sync_done := True,
                     changedb := [(''u1'', [(''cn'', PList [PBytes ''a'']), (''dn'', PStr ''cn=a'')]),
                                  (''u2'', [(''dn'', PStr ''cn=b'')])]\<rparr>)) = [p]
          \<and> js_change_type p = ''add'' \<and> js_old_attributes p = PDict [])
   \<and> (\<exists>self' ps.
         run (entry_calls [(''cn=b'', [], ''u2''),
                           (''cn=a2'', [(''cn'', PList [PBytes ''b''])], ''u1'')])
           (init\<lparr>sync_done := True,
                  changedb := [(''u1'', [(''cn'', PList [PBytes ''a'']), (''dn'', PStr ''cn=a'')])]\<rparr>)
         = Done self' ps)"
proof -
  let ?es = "[(''cn=a'', [(''cn'', PList [PBytes ''a''])], ''u1''),
              (''cn=b'', [(''dn'', PStr ''x'')], ''u2''),
              (''cn=a2'', [], ''u1'')]"
  let ?live = "init\<lparr>sync_done := True,
                changedb := [(''u1'', [(''cn'', PList [PBytes ''a'']), (''dn'', PStr ''cn=a'')])]\<rparr>"
  let ?live1 = "init\<lparr>sync_done := True,
                changedb := [(''u1'', [(''cn'', PList [PBytes ''a'']), (''dn'', PStr ''cn=a'')]),
                             (''u2'', [(''dn'', PStr ''cn=b'')])]\<rparr>"
  let ?live2 = "init\<lparr>sync_done := True,
                changedb := [(''u1'', [(''cn'', PList [PStr ''b'']), (''dn'', PStr ''cn=a2'')]),
                             (''u2'', [(''dn'', PStr ''cn=b'')])]\<rparr>"
  let ?live3 = "init\<lparr>sync_done := True,
                changedb := [(''u1'', [(''cn'', PList [PBytes ''a'']), (''dn'', PStr ''cn=a'')]),
                             (''u2'', [(''dn'', PStr ''cn=b'')]),
                             (''u3'', [(''dn'', PStr ''cn=c'')])]\<rparr>"
  let ?add = "\<lparr>js_dn = PStr ''cn=b'', js_change_type = ''add'', js_old_attributes = PDict [],
               js_new_attributes = PDict [(''dn'', PStr ''cn=b'')]\<rparr>"
  let ?mod = "\<lparr>js_dn = PStr ''cn=a2'', js_change_type = ''modify'',
               js_old_attributes = PDict [(''cn'', PList [PStr ''a'']), (''dn'', PStr ''cn=a'')],
               js_new_attributes = PDict [(''cn'', PList [PStr ''b'']), (''dn'', PStr ''cn=a2'')]\<rparr>"
  let ?addc = "\<lparr>js_dn = PStr ''cn=c'', js_change_type = ''add'', js_old_attributes = PDict [],
               js_new_attributes = PDict [(''dn'', PStr ''cn=c'')]\<rparr>"
  let ?pre = "[(''cn=b'', [], ''u2'')] :: (string \<times> pydict \<times> string) list"
  let ?es2 = "[(''cn=b'', [], ''u2''), (''cn=a2'', [(''cn'', PList [PBytes ''b''])], ''u1'')]"
  have h: "changedb init = [] \<and> \<not> sync_done init" by (simp add: init_def)
  from entries_stored_and_classified[where self = init and es = ?es,
      THEN conjunct1, THEN mp, OF h]
  obtain self' where r: "run (entry_calls ?es) init = Done self' []"
    and k: "fst ` set (changedb self') = (\<lambda>(dn, attributes, uuid). uuid) ` set ?es"
    and m: "\<forall>uuid. map_of (changedb self') uuid = latest_entry ?es uuid" by blast
  have k': "fst ` set (changedb self') = {''u1'', ''u2''}" using k by auto
  have m1: "map_of (changedb self') ''u1'' = Some [(''dn'', PStr ''cn=a2'')]"
    and m2: "map_of (changedb self') ''u2'' = Some [(''dn'', PStr ''cn=b'')]"
    and m3: "map_of (changedb self') ''u3'' = None"
    by (simp_all add: m)
  have w1: "\<exists>self'. run (entry_calls ?es) init = Done self' []
          \<and> fst ` set (changedb self') = {''u1'', ''u2''}
          \<and> map_of (changedb self') ''u1'' = Some [(''dn'', PStr ''cn=a2'')]
          \<and> map_of (changedb self') ''u2'' = Some [(''dn'', PStr ''cn=b'')]
          \<and> map_of (changedb self') ''u3'' = None"
    using r k' m1 m2 m3 by blast
  have sd: "sync_done ?live" by (simp add: init_def)
  have e2: "run (entry_calls ?es2) ?live = Done ?live2 [?add, ?mod]"
    by (simp add: entry_calls_def eval_defs)
  have e1: "run (entry_calls ?pre) ?live = Done ?live1 [?add]"
    by (simp add: entry_calls_def eval_defs)
  have c1: "syncrepl_entry ''cn=a2'' [(''cn'', PList [PBytes ''b''])] ''u1'' ?live1
              = Done ?live2 [?mod]"
    by (simp add: eval_defs)
  have c2: "syncrepl_entry ''cn=c'' [] ''u3'' ?live1 = Done ?live3 [?addc]"
    by (simp add: eval_defs)
  have w2: "length [?add, ?mod] = length ?es2"
    using entries_stored_and_classified[where self = ?live and es = ?es2,
      THEN conjunct2, THEN conjunct1, THEN mp, OF e2, THEN conjunct2, THEN conjunct2,
      THEN conjunct1] sd
    by (simp only: if_True)
  from entries_stored_and_classified[where self = ?live and pre = ?pre,
      THEN conjunct2, THEN conjunct2, THEN conjunct1, THEN mp, OF conjI[OF sd conjI[OF e1 c1]]]
  obtain p where p1: "[?mod] = [p]"
    and p2: "if ''u1'' \<in> fst ` set (changedb ?live)
                         \<union> (\<lambda>(dn, attributes, uuid). uuid) ` set ?pre
              then js_change_type p = ''modify''
                   \<and> (\<exists>prev. map_of (changedb ?live1) ''u1'' = Some prev
                          \<and> stringify (PDict prev) = Inr (js_old_attributes p))
              else js_change_type p = ''add'' \<and> js_old_attributes p = PDict []"
    by blast
  have in1: "''u1'' \<in> fst ` set (changedb ?live)
                         \<union> (\<lambda>(dn, attributes, uuid). uuid) ` set ?pre"
    by (simp add: init_def)
  from p2 in1 have p3: "js_change_type p = ''modify''"
    and "\<exists>prev. map_of (changedb ?live1) ''u1'' = Some prev
                          \<and> stringify (PDict prev) = Inr (js_old_attributes p)"
    by (simp_all only: if_True)
  then obtain prev where "map_of (changedb ?live1) ''u1'' = Some prev"
    and st: "stringify (PDict prev) = Inr (js_old_attributes p)" by blast
  then have "prev = [(''cn'', PList [PBytes ''a'']), (''dn'', PStr ''cn=a'')]"
    by (simp add: init_def)
  with st have p4: "stringify (PDict [(''cn'', PList [PBytes ''a'']), (''dn'', PStr ''cn=a'')])
              = Inr (js_old_attributes p)" by (simp only:)
  have pub1: "published (syncrepl_entry ''cn=a2'' [(''cn'', PList [PBytes ''b''])] ''u1'' ?live1)
                = [p]"
    using p1 by (simp only: c1 published.simps)
  have w3: "\<exists>p. published (syncrepl_entry ''cn=a2'' [(''cn'', PList [PBytes ''b''])] ''u1'' ?live1)
                = [p]
          \<and> js_change_type p = ''modify''
          \<and> stringify (PDict [(''cn'', PList [PBytes ''a'']), (''dn'', PStr ''cn=a'')])
              = Inr (js_old_attributes p)"
    using pub1 p3 p4 by blast
  from entries_stored_and_classified[where self = ?live and pre = ?pre,
      THEN conjunct2, THEN conjunct2, THEN conjunct1, THEN mp, OF conjI[OF sd conjI[OF e1 c2]]]
  obtain q where q1: "[?addc] = [q]"
    and q2: "if ''u3'' \<in> fst ` set (changedb ?live)
                         \<union> (\<lambda>(dn, attributes, uuid). uuid) ` set ?pre
              then js_change_type q = ''modify''
                   \<and> (\<exists>prev. map_of (changedb ?live1) ''u3'' = Some prev
                          \<and> stringify (PDict prev) = Inr (js_old_attributes q))
              else js_change_type q = ''add'' \<and> js_old_attributes q = PDict []"
    by blast
  have out3: "\<not> ''u3'' \<in> fst ` set (changedb ?live)
                         \<union> (\<lambda>(dn, attributes, uuid). uuid) ` set ?pre"
    by (simp add: init_def)
  from q2 out3 have q3: "js_change_type q = ''add''" and q4: "js_old_attributes q = PDict []"
    by (simp_all only: if_False)
  have pub2: "published (syncrepl_entry ''cn=c'' [] ''u3'' ?live1) = [q]"
    using q1 by (simp only: c2 published.simps)
  have w4: "\<exists>p. published (syncrepl_entry ''cn=c'' [] ''u3'' ?live1) = [p]
          \<and> js_change_type p = ''add'' \<and> js_old_attributes p = PDict []"
    using pub2 q3 q4 by blast
  have cv1: "list_all (\<lambda>kv. converts (PDict (snd kv))) (changedb ?live)"
    by (simp add: init_def converts_def str_utf8_def byte_in_def)
  have cv2: "list_all (\<lambda>(dn, attributes, uuid).
             converts (PDict (AList.update ''dn'' (PStr dn) attributes))) ?es2"
    by (simp add: converts_def str_utf8_def byte_in_def)
  note w5 = entries_stored_and_classified[where self = ?live and es = ?es2,
      THEN conjunct2, THEN conjunct2, THEN conjunct2, THEN mp, OF conjI[OF sd conjI[OF cv1 cv2]]]
  show ?thesis
    by (intro conjI w1 e2 w2 w3 w4 w5)
qed

subsection \<open>The dn among the attributes\<close>

lemma wf_client_update:
  assumes "wf_client self" and "has_dn entry"
  shows "wf_client (self\<lparr>changedb := AList.update uuid entry (changedb self)\<rparr>)"
  using assms by (simp add: wf_client_def distinct_update list_all_update)

lemma wf_client_filter:
  "wf_client self \<Longrightarrow> wf_client (self\<lparr>changedb := filter P (changedb self)\<rparr>)"
  by (simp add: wf_client_def distinct_map_filter list_all_iff)

lemma has_dn_update: "has_dn (AList.update ''dn'' (PStr dn) attributes)"
  by (simp add: has_dn_iff update_conv')

lemma dict_loop_has_dn: "dict_loop d = Inr d' \<Longrightarrow> has_dn d \<Longrightarrow> has_dn d'"
  by (auto simp: has_dn_iff dest: dict_loop_keeps_str)

lemma syncrepl_entry_raises_nothing:
  "syncrepl_entry dn attributes uuid self = Raised e ps \<Longrightarrow> ps = []"
  by (auto simp: syncrepl_entry_def Let_def split: prod.splits sum.splits if_splits)

lemma syncrepl_entry_dn:
  assumes wf: "wf_client self"
    and d: "syncrepl_entry dn attributes uuid self = Done self' ps"
  shows "wf_client self'"
    and "\<exists>m. map_of (changedb self') uuid = Some m \<and> map_of m ''dn'' = Some (PStr dn)"
    and "\<forall>p\<in>set ps. dn_in_body p \<and> js_dn p = PStr dn \<and> js_change_type p = fst (classify self uuid)
            \<and> stringify (PDict (snd (classify self uuid))) = Inr (js_old_attributes p)"
proof -
  let ?a = "AList.update ''dn'' (PStr dn) attributes"
  have ct: "fst (classify self uuid) = ''add'' \<or> fst (classify self uuid) = ''modify''"
    by (simp add: classify_def split: option.splits)
  have a: "map_of ?a ''dn'' = Some (PStr dn)" by (simp add: update_conv')
  show "wf_client self'"
    and "\<exists>m. map_of (changedb self') uuid = Some m \<and> map_of m ''dn'' = Some (PStr dn)"
    and "\<forall>p\<in>set ps. dn_in_body p \<and> js_dn p = PStr dn \<and> js_change_type p = fst (classify self uuid)
            \<and> stringify (PDict (snd (classify self uuid))) = Inr (js_old_attributes p)"
  proof (atomize (full), cases "sync_done self")
    case False
    with d have "self' = self\<lparr>changedb := AList.update uuid ?a (changedb self)\<rparr>" and "ps = []"
      by (simp_all add: syncrepl_entry_refreshing)
    with wf a show "wf_client self' \<and>
       (\<exists>m. map_of (changedb self') uuid = Some m \<and> map_of m ''dn'' = Some (PStr dn)) \<and>
       (\<forall>p\<in>set ps. dn_in_body p \<and> js_dn p = PStr dn \<and> js_change_type p = fst (classify self uuid)
            \<and> stringify (PDict (snd (classify self uuid))) = Inr (js_old_attributes p))"
      by (simp add: wf_client_update has_dn_update update_conv')
  next
    case True
    from True d obtain js new' where ps: "ps = [js]"
      and pc: "post_change (PStr dn) ?a (snd (classify self uuid)) (fst (classify self uuid)) = Inr js"
      and dl: "dict_loop ?a = Inr new'"
      and new: "js_new_attributes js = PDict new'"
      and s': "self' = self\<lparr>changedb := AList.update uuid new' (changedb self)\<rparr>"
      by (rule syncrepl_entry_persisting)
    have n: "map_of new' ''dn'' = Some (PStr dn)" using dl a by (rule dict_loop_keeps_str)
    then have hn: "has_dn new'" by (auto simp: has_dn_iff)
    have t: "js_change_type js = fst (classify self uuid)" using pc by (rule post_change_Inr(1))
    have "stringify (PStr dn) = Inr (js_dn js)" using pc by (rule post_change_Inr(2))
    then have jd: "js_dn js = PStr dn" by simp
    have old: "stringify (PDict (snd (classify self uuid))) = Inr (js_old_attributes js)"
      using pc by (rule post_change_Inr(3))
    have "has_dn (dict_items (js_old_attributes js))" if m: "js_change_type js = ''modify''"
    proof -
      from m t obtain prev where p: "map_of (changedb self) uuid = Some prev"
        and c: "snd (classify self uuid) = prev"
        by (auto simp: classify_def split: option.splits)
      from wf p obtain d0 where "map_of prev ''dn'' = Some (PStr d0)" by (rule wf_client_dn)
      then have hp: "has_dn prev" by (auto simp: has_dn_iff)
      from old obtain old' where o: "js_old_attributes js = PDict old'"
        and "dict_loop (snd (classify self uuid)) = Inr old'"
        by (rule stringify_PDict_Inr)
      with c have "dict_loop prev = Inr old'" by simp
      from dict_loop_has_dn[OF this hp] o show ?thesis by simp
    qed
    then have "dn_in_body js" using ct t n new jd by (auto simp: dn_in_body_def)
    with wf hn n ps s' jd t old show "wf_client self' \<and>
       (\<exists>m. map_of (changedb self') uuid = Some m \<and> map_of m ''dn'' = Some (PStr dn)) \<and>
       (\<forall>p\<in>set ps. dn_in_body p \<and> js_dn p = PStr dn \<and> js_change_type p = fst (classify self uuid)
            \<and> stringify (PDict (snd (classify self uuid))) = Inr (js_old_attributes p))"
      by (simp add: wf_client_update update_conv')
  qed
qed

lemma syncrepl_entry_stores_dn:
  assumes "syncrepl_entry dn attributes uuid self = Done self' ps"
  shows "\<exists>m. map_of (changedb self') uuid = Some m \<and> map_of m ''dn'' = Some (PStr dn)"
proof (cases "sync_done self")
  case False
  with assms show ?thesis by (auto simp: syncrepl_entry_refreshing update_conv')
next
  case True
  from True assms obtain js new' where
    dl: "dict_loop (AList.update ''dn'' (PStr dn) attributes) = Inr new'"
    and s': "self' = self\<lparr>changedb := AList.update uuid new' (changedb self)\<rparr>"
    by (rule syncrepl_entry_persisting)
  have "map_of (AList.update ''dn'' (PStr dn) attributes) ''dn'' = Some (PStr dn)"
    by (simp add: update_conv')
  with dl have "map_of new' ''dn'' = Some (PStr dn)" by (rule dict_loop_keeps_str)
  with s' show ?thesis by (simp add: update_conv')
qed

lemma syncrepl_entry_modify:
  assumes sd: "sync_done self"
    and p: "map_of (changedb self) uuid = Some prev"
    and d0: "map_of prev ''dn'' = Some (PStr d0)"
    and d: "syncrepl_entry dn attributes uuid self = Done self' ps"
  shows "\<exists>js. ps = [js] \<and> js_change_type js = ''modify'' \<and> js_dn js = PStr dn
           \<and> map_of (dict_items (js_old_attributes js)) ''dn'' = Some (PStr d0)
           \<and> map_of (dict_items (js_new_attributes js)) ''dn'' = Some (PStr dn)"
proof -
  let ?a = "AList.update ''dn'' (PStr dn) attributes"
  have c: "classify self uuid = (''modify'', prev)" using p by (simp add: classify_def)
  from sd d obtain js new' where ps: "ps = [js]"
    and pc: "post_change (PStr dn) ?a (snd (classify self uuid)) (fst (classify self uuid)) = Inr js"
    and dl: "dict_loop ?a = Inr new'"
    and new: "js_new_attributes js = PDict new'"
    by (rule syncrepl_entry_persisting)
  have a: "map_of ?a ''dn'' = Some (PStr dn)" by (simp add: update_conv')
  have n: "map_of new' ''dn'' = Some (PStr dn)" using dl a by (rule dict_loop_keeps_str)
  have t: "js_change_type js = ''modify''" using post_change_Inr(1)[OF pc] c by simp
  have "stringify (PStr dn) = Inr (js_dn js)" using pc by (rule post_change_Inr(2))
  then have jd: "js_dn js = PStr dn" by simp
  have "stringify (PDict prev) = Inr (js_old_attributes js)"
    using post_change_Inr(3)[OF pc] c by simp
  then obtain old' where o: "js_old_attributes js = PDict old'" and ol: "dict_loop prev = Inr old'"
    by (rule stringify_PDict_Inr)
  have "map_of old' ''dn'' = Some (PStr d0)" using ol d0 by (rule dict_loop_keeps_str)
  with ps t jd o n new show ?thesis by simp
qed

lemma delete_event_dn:
  assumes "map_of entry ''dn'' = Some (PStr d)"
    and pc: "post_change (PStr d) [] entry ''delete'' = Inr js"
  shows "dn_in_body js"
proof -
  have "stringify (PStr d) = Inr (js_dn js)" using pc by (rule post_change_Inr(2))
  then have jd: "js_dn js = PStr d" by simp
  have "stringify (PDict entry) = Inr (js_old_attributes js)" using pc by (rule post_change_Inr(3))
  then obtain old' where o: "js_old_attributes js = PDict old'" and ol: "dict_loop entry = Inr old'"
    by (rule stringify_PDict_Inr)
  have "map_of old' ''dn'' = Some (PStr d)" using ol assms(1) by (rule dict_loop_keeps_str)
  with post_change_Inr(1)[OF pc] jd o show ?thesis by (simp add: dn_in_body_def)
qed

lemma delete_loop_dn:
  "wf_client self \<Longrightarrow> p \<in> set (published (delete_loop ks self)) \<Longrightarrow> dn_in_body p"
proof (induction ks arbitrary: self)
  case Nil
  then show ?case by simp
next
  case (Cons u ks)
  let ?self1 = "self\<lparr>changedb := AList.delete u (changedb self)\<rparr>"
  have wf1: "wf_client ?self1"
    using wf_client_filter[OF Cons.prems(1)] by (simp add: AList.delete_eq)
  show ?case
  proof (cases "map_of (changedb self) u")
    case None
    with Cons.prems(2) show ?thesis by simp
  next
    case (Some entry)
    from Cons.prems(1) Some obtain d where d: "map_of entry ''dn'' = Some (PStr d)"
      by (rule wf_client_dn)
    show ?thesis
    proof (cases "post_change (PStr d) [] entry ''delete''")
      case (Inl e)
      with Cons.prems(2) Some d show ?thesis by simp
    next
      case (Inr js)
      with Cons.prems(2) Some d have "p = js \<or> p \<in> set (published (delete_loop ks ?self1))"
        by simp
      then show ?thesis
      proof
        assume "p = js"
        with delete_event_dn[OF d Inr] show ?thesis by simp
      next
        assume "p \<in> set (published (delete_loop ks ?self1))"
        with Cons.IH[OF wf1] show ?thesis .
      qed
    qed
  qed
qed

lemma syncrepl_delete_dn:
  assumes "wf_client self"
  shows "\<forall>p\<in>set (published (syncrepl_delete uuids self)). dn_in_body p"
    and "syncrepl_delete uuids self = Done self' ps \<Longrightarrow> wf_client self'"
proof -
  show "\<forall>p\<in>set (published (syncrepl_delete uuids self)). dn_in_body p"
    unfolding syncrepl_delete_def using delete_loop_dn[OF assms] by blast
  assume "syncrepl_delete uuids self = Done self' ps"
  then have "self' = self\<lparr>changedb := filter (\<lambda>kv. fst kv \<notin> set uuids) (changedb self)\<rparr>"
    by (rule syncrepl_delete_Done)
  then show "wf_client self'" using wf_client_filter[OF assms] by simp
qed

lemma wf_client_other_fields [simp]:
  "wf_client (self\<lparr>presentUUIDs := X\<rparr>) = wf_client self"
  "wf_client (self\<lparr>sync_done := b\<rparr>) = wf_client self"
  by (simp_all add: wf_client_def)

lemma syncrepl_present_dn:
  assumes "wf_client self"
  shows "\<forall>p\<in>set (published (syncrepl_present uuids refreshDeletes self)). dn_in_body p"
    and "syncrepl_present uuids refreshDeletes self = Done self' ps \<Longrightarrow> wf_client self'"
proof -
  note sd = syncrepl_delete_dn[OF assms]
  show "\<forall>p\<in>set (published (syncrepl_present uuids refreshDeletes self)). dn_in_body p"
  proof (cases uuids)
    case None
    let ?gone = "filter (\<lambda>uuid. uuid \<notin> presentUUIDs self \<and> uuid \<noteq> ''ldap_cookie'')
                   (map fst (changedb self))"
    show ?thesis
    proof (cases "syncrepl_delete ?gone self")
      case (Done s qs)
      with sd(1)[of ?gone] None show ?thesis by (simp add: syncrepl_present_def)
    next
      case (Raised e qs)
      with sd(1)[of ?gone] None show ?thesis by (simp add: syncrepl_present_def)
    qed
  next
    case (Some us)
    with sd(1)[of us] show ?thesis by (simp add: syncrepl_present_def)
  qed
  assume d: "syncrepl_present uuids refreshDeletes self = Done self' ps"
  show "wf_client self'"
  proof (cases uuids)
    case None
    let ?gone = "filter (\<lambda>uuid. uuid \<notin> presentUUIDs self \<and> uuid \<noteq> ''ldap_cookie'')
                   (map fst (changedb self))"
    show ?thesis
    proof (cases "syncrepl_delete ?gone self")
      case (Done s qs)
      with d None assms sd(2)[OF Done] show ?thesis
        by (auto simp: syncrepl_present_def split: if_splits)
    next
      case (Raised e qs)
      with d None assms show ?thesis by (auto simp: syncrepl_present_def split: if_splits)
    qed
  next
    case (Some us)
    with d assms sd(2)[of us self' ps] show ?thesis
      by (auto simp: syncrepl_present_def split: if_splits)
  qed
qed

lemma dispatch_dn:
  assumes "wf_client self"
  shows "(\<forall>p\<in>set (published (dispatch c self)). dn_in_body p)
         \<and> (\<forall>self' ps. dispatch c self = Done self' ps \<longrightarrow> wf_client self')"
proof (cases c)
  case (OnEntry dn attributes uuid)
  show ?thesis
  proof (cases "syncrepl_entry dn attributes uuid self")
    case (Done s qs)
    with syncrepl_entry_dn(1,3)[OF assms Done] OnEntry show ?thesis by simp
  next
    case (Raised e qs)
    with syncrepl_entry_raises_nothing[OF Raised] OnEntry show ?thesis by simp
  qed
next
  case (OnDelete uuids)
  with syncrepl_delete_dn[OF assms] show ?thesis by auto
next
  case (OnPresent uuids refreshDeletes)
  with syncrepl_present_dn[OF assms] show ?thesis by auto
next
  case OnRefreshDone
  with assms show ?thesis by (simp add: syncrepl_refreshdone_def)
qed

lemma run_dn:
  "wf_client self \<Longrightarrow>
   (\<forall>p\<in>set (published (run cs self)). dn_in_body p)
   \<and> (\<forall>self' ps. run cs self = Done self' ps \<longrightarrow> wf_client self')"
proof (induction cs arbitrary: self)
  case Nil
  then show ?case by simp
next
  case (Cons c cs)
  note d = dispatch_dn[OF Cons.prems, of c]
  show ?case
  proof (cases "dispatch c self")
    case (Done s qs)
    with d have wf: "wf_client s" and q: "\<forall>p\<in>set qs. dn_in_body p" by auto
    from Cons.IH[OF wf] q Done show ?thesis
      by (cases "run cs s") auto
  next
    case (Raised e qs)
    with d show ?thesis by auto
  qed
qed

lemma wf_client_init: "wf_client init"
  by (simp add: wf_client_def init_def)

text \<open>
  C10, as the code has it.  Every \<open>syncrepl_entry\<close> call that returns leaves under its
  identifier a dict whose \<open>'dn'\<close> is the dn of the call, whatever the directory supplied
  under that name.  So in every state that the callbacks reach from a new client each
  stored dict has a \<open>str\<close> under \<open>'dn'\<close>, and in every body published on the way the
  \<open>new_attributes\<close> of an Add or Modify event and the \<open>old_attributes\<close> of a Delete event
  hold the dn of the body under \<open>'dn'\<close>.  The \<open>old_attributes\<close> of a Modify event hold
  the dn under which the entry was stored before, that of the identifier's previous
  entry callback.
\<close>

theorem dn_recorded:
  "(syncrepl_entry dn attributes uuid self = Done self' ps \<longrightarrow>
      (\<exists>m. map_of (changedb self') uuid = Some m \<and> map_of m ''dn'' = Some (PStr dn)))
   \<and> (run cs init = Done self1 ps1 \<longrightarrow> wf_client self1)
   \<and> (\<forall>p\<in>set (published (run cs init)). dn_in_body p)
   \<and> (sync_done self \<and> map_of (changedb self) uuid = Some prev
        \<and> map_of prev ''dn'' = Some (PStr d0)
        \<and> syncrepl_entry dn attributes uuid self = Done self' ps \<longrightarrow>
        (\<exists>js. ps = [js] \<and> js_change_type js = ''modify'' \<and> js_dn js = PStr dn
           \<and> map_of (dict_items (js_old_attributes js)) ''dn'' = Some (PStr d0)
           \<and> map_of (dict_items (js_new_attributes js)) ''dn'' = Some (PStr dn)))"
  using syncrepl_entry_stores_dn run_dn[OF wf_client_init] syncrepl_entry_modify by blast

theorem dn_recorded_witness:
  "syncrepl_entry ''cn=b'' [(''dn'', PStr ''bogus'')] ''u1'' one_entry_live
     = Done (one_entry_live\<lparr>changedb := [(''u1'', [(''dn'', PStr ''cn=b'')])]\<rparr>)
         [\<lparr>js_dn = PStr ''cn=b'', js_change_type = ''modify'',
           js_old_attributes = PDict [(''dn'', PStr ''cn=a'')],
           js_new_attributes = PDict [(''dn'', PStr ''cn=b'')]\<rparr>]
   \<and> (\<exists>m. map_of (changedb (one_entry_live\<lparr>changedb := [(''u1'', [(''dn'', PStr ''cn=b'')])]\<rparr>))
              ''u1'' = Some m
          \<and> map_of m ''dn'' = Some (PStr ''cn=b''))
   \<and> run [OnEntry ''cn=a'' [] ''u1'', OnRefreshDone,
          OnEntry ''cn=b'' [(''dn'', PStr ''bogus'')] ''u1'', OnDelete [''u1'']] init
       = Done (init\<lparr>sync_done := True\<rparr>)
           [\<lparr>js_dn = PStr ''cn=b'', js_change_type = ''modify'',
             js_old_attributes = PDict [(''dn'', PStr ''cn=a'')],
             js_new_attributes = PDict [(''dn'', PStr ''cn=b'')]\<rparr>,
            \<lparr>js_dn = PStr ''cn=b'', js_change_type = ''delete'',
             js_old_attributes = PDict [(''dn'', PStr ''cn=b'')],
             js_new_attributes = PDict []\<rparr>]
   \<and> wf_client (init\<lparr>sync_done := True\<rparr>)
   \<and> list_all dn_in_body
         (published (run [OnEntry ''cn=a'' [] ''u1'', OnRefreshDone,
                          OnEntry ''cn=b'' [(''dn'', PStr ''bogus'')] ''u1'',
                          OnDelete [''u1'']] init))
   \<and> sync_done one_entry_live
   \<and> map_of (changedb one_entry_live) ''u1'' = Some [(''dn'', PStr ''cn=a'')]
   \<and> map_of [(''dn'', PStr ''cn=a'')] ''dn'' = Some (PStr ''cn=a'')
   \<and> (\<exists>js. [\<lparr>js_dn = PStr ''cn=b'', js_change_type = ''modify'',
               js_old_attributes = PDict [(''dn'', PStr ''cn=a'')],
               js_new_attributes = PDict [(''dn'', PStr ''cn=b'')]\<rparr>] = [js]
          \<and> js_change_type js = ''modify'' \<and> js_dn js = PStr ''cn=b''
          \<and> map_of (dict_items (js_old_attributes js)) ''dn'' = Some (PStr ''cn=a'')
          \<and> map_of (dict_items (js_new_attributes js)) ''dn'' = Some (PStr ''cn=b''))"
proof -
  let ?js = "\<lparr>js_dn = PStr ''cn=b'', js_change_type = ''modify'',
              js_old_attributes = PDict [(''dn'', PStr ''cn=a'')],
              js_new_attributes = PDict [(''dn'', PStr ''cn=b'')]\<rparr>"
  let ?jd = "\<lparr>js_dn = PStr ''cn=b'', js_change_type = ''delete'',
              js_old_attributes = PDict [(''dn'', PStr ''cn=b'')],
              js_new_attributes = PDict []\<rparr>"
  let ?cs = "[OnEntry ''cn=a'' [] ''u1'', OnRefreshDone,
              OnEntry ''cn=b'' [(''dn'', PStr ''bogus'')] ''u1'', OnDelete [''u1'']]"
  let ?s' = "one_entry_live\<lparr>changedb := [(''u1'', [(''dn'', PStr ''cn=b'')])]\<rparr>"
  have h1: "syncrepl_entry ''cn=b'' [(''dn'', PStr ''bogus'')] ''u1'' one_entry_live
              = Done ?s' [?js]"
    by (simp add: one_entry_live_def eval_defs)
  have h2: "run ?cs init = Done (init\<lparr>sync_done := True\<rparr>) [?js, ?jd]"
    by (simp add: eval_defs)
  have h3: "sync_done one_entry_live
            \<and> map_of (changedb one_entry_live) ''u1'' = Some [(''dn'', PStr ''cn=a'')]
            \<and> map_of [(''dn'', PStr ''cn=a'')] ''dn'' = Some (PStr ''cn=a'')"
    by (simp add: one_entry_live_def)
  note t = dn_recorded[of "''cn=b''" "[(''dn'', PStr ''bogus'')]" "''u1''" one_entry_live
             ?s' "[?js]" ?cs "init\<lparr>sync_done := True\<rparr>" "[?js, ?jd]"
             "[(''dn'', PStr ''cn=a'')]" "''cn=a''"]
  note c1 = mp[OF conjunct1[OF t] h1]
  note c2 = mp[OF conjunct1[OF conjunct2[OF t]] h2]
  note c3 = conjunct1[OF conjunct2[OF conjunct2[OF t]]]
  note c4 = mp[OF conjunct2[OF conjunct2[OF conjunct2[OF t]]] conjI[OF conjunct1[OF h3]
              conjI[OF conjunct1[OF conjunct2[OF h3]] conjI[OF conjunct2[OF conjunct2[OF h3]] h1]]]]
  have c3': "list_all dn_in_body (published (run ?cs init))"
    using c3 by (simp only: list_all_iff)
  show ?thesis
    by (intro conjI h1 c1 h2 c2 c3' conjunct1[OF h3] conjunct1[OF conjunct2[OF h3]]
          conjunct2[OF conjunct2[OF h3]] c4)
qed

text \<open>
  C10 as it is stated fails for the \<open>old_attributes\<close> of a Modify event: when the entry has
  been renamed they hold the old dn, not the dn of the event.
\<close>

theorem modify_keeps_old_dn:
  "run [OnEntry ''cn=a'' [] ''u1'', OnRefreshDone, OnEntry ''cn=b'' [] ''u1''] init
     = Done (init\<lparr>sync_done := True, changedb := [(''u1'', [(''dn'', PStr ''cn=b'')])]\<rparr>)
         [\<lparr>js_dn = PStr ''cn=b'', js_change_type = ''modify'',
           js_old_attributes = PDict [(''dn'', PStr ''cn=a'')],
           js_new_attributes = PDict [(''dn'', PStr ''cn=b'')]\<rparr>]
   \<and> PStr ''cn=a'' \<noteq> PStr ''cn=b''"
  by (simp add: eval_defs)

section \<open>Properties of the supervisor\<close>

text \<open>
  A turn after which the loop goes round again leaves nothing behind but what was seen
  of it: the next turn starts from \<open>connect cfg\<close>, a new client.
\<close>

lemma main_retry:
  assumes "retries cfg a"
  shows "main_loop cfg (a # rest) = after_actions (turn_trace cfg a) (main_loop cfg rest)"
proof (cases "run (callbacks a) (connect cfg)")
  case (Done self ps)
  with assms show ?thesis
    by (cases "bind_ends a"; cases "search_ends a"; cases "polling_ends a")
       (auto simp: retries_def fails_def search_over_def turn_trace_def turn_puts_def)
next
  case (Raised e ps)
  with assms show ?thesis
    by (cases "bind_ends a"; cases "search_ends a")
       (auto simp: retries_def fails_def search_over_def turn_trace_def turn_puts_def)
qed

lemma main_append:
  "list_all (retries cfg) pre \<Longrightarrow>
   main_loop cfg (pre @ rest)
     = after_actions (concat (map (turn_trace cfg) pre)) (main_loop cfg rest)"
proof (induction pre)
  case Nil
  then show ?case by (cases "main_loop cfg rest") simp
next
  case (Cons a pre)
  then have r: "retries cfg a" and "list_all (retries cfg) pre" by simp_all
  with Cons.IH show ?case
    by (cases "main_loop cfg rest") (simp add: main_retry[OF r] del: main_loop.simps)
qed

lemma main_loops:
  assumes "list_all (retries cfg) script"
  shows "main_loop cfg script = (concat (map (turn_trace cfg) script), Looping)"
  using main_append[OF assms, of "[]"] by simp

lemma snd_after_actions [simp]: "snd (after_actions as r) = snd r"
  by (cases r) simp

lemma script_split:
  "list_all (retries cfg) script
   \<or> (\<exists>pre a rest. script = pre @ a # rest \<and> list_all (retries cfg) pre \<and> \<not> retries cfg a)"
proof (induction script)
  case Nil
  then show ?case by simp
next
  case (Cons x xs)
  show ?case
  proof (cases "retries cfg x")
    case False
    then have "x # xs = [] @ x # xs \<and> list_all (retries cfg) [] \<and> \<not> retries cfg x" by simp
    then show ?thesis by blast
  next
    case True
    from Cons.IH show ?thesis
    proof
      assume "list_all (retries cfg) xs"
      with True show ?thesis by simp
    next
      assume "\<exists>pre a rest. xs = pre @ a # rest \<and> list_all (retries cfg) pre \<and> \<not> retries cfg a"
      then obtain pre a rest where "xs = pre @ a # rest" "list_all (retries cfg) pre"
        "\<not> retries cfg a" by blast
      with True have "x # xs = (x # pre) @ a # rest \<and> list_all (retries cfg) (x # pre)
          \<and> \<not> retries cfg a" by simp
      then show ?thesis by blast
    qed
  qed
qed

lemma main_sys_exit_turn:
  assumes "\<not> retries cfg a" and "snd (main_loop cfg (a # rest)) = SysExit n"
  shows "n = 1 \<and> connect_ends a = Returns \<and> bind_ends a = InvalidCredentials"
  using assms
  by (cases "connect_ends a"; cases "bind_ends a"; cases "search_ends a";
      cases "run (callbacks a) (connect cfg)"; cases "polling_ends a")
     (auto simp: retries_def fails_def search_over_def split: if_splits)

lemma main_return_turn:
  assumes "\<not> retries cfg a" and "snd (main_loop cfg (a # rest)) = Return"
  shows "connect_ends a = Returns \<and> bind_ends a = BindOk \<and> search_ends a = Returns
         \<and> (\<exists>self ps. run (callbacks a) (connect cfg) = Done self ps)
         \<and> polling_ends a = KeyboardInterrupt"
  using assms
  by (cases "connect_ends a"; cases "bind_ends a"; cases "search_ends a";
      cases "run (callbacks a) (connect cfg)"; cases "polling_ends a")
     (auto simp: retries_def fails_def search_over_def split: if_splits)

text \<open>
  A run that has ended has ended in the first turn that does not retry.
\<close>

lemma main_ending_cases:
  assumes "snd (main_loop cfg script) \<noteq> Looping"
  obtains pre a rest where "script = pre @ a # rest" and "list_all (retries cfg) pre"
    and "\<not> retries cfg a" and "snd (main_loop cfg script) = snd (main_loop cfg (a # rest))"
proof -
  from script_split[of cfg script] show thesis
  proof
    assume "list_all (retries cfg) script"
    with assms show thesis by (simp add: main_loops)
  next
    assume "\<exists>pre a rest. script = pre @ a # rest \<and> list_all (retries cfg) pre \<and> \<not> retries cfg a"
    then obtain pre a rest where s: "script = pre @ a # rest" and p: "list_all (retries cfg) pre"
      and a: "\<not> retries cfg a" by blast
    from main_append[OF p, of "a # rest"] s
    have "snd (main_loop cfg script) = snd (main_loop cfg (a # rest))"
      by (simp del: main_loop.simps)
    with s p a show thesis using that by blast
  qed
qed

lemma main_sys_exit:
  assumes "snd (main_loop cfg script) = SysExit n"
  shows "n = 1 \<and> (\<exists>pre a rest. script = pre @ a # rest \<and> list_all (retries cfg) pre
                     \<and> connect_ends a = Returns \<and> bind_ends a = InvalidCredentials)"
proof -
  from assms have "snd (main_loop cfg script) \<noteq> Looping" by simp
  then obtain pre a rest where s: "script = pre @ a # rest" and p: "list_all (retries cfg) pre"
    and a: "\<not> retries cfg a" and e: "snd (main_loop cfg script) = snd (main_loop cfg (a # rest))"
    by (rule main_ending_cases)
  from e assms have "snd (main_loop cfg (a # rest)) = SysExit n" by simp
  from main_sys_exit_turn[OF a this] s p show ?thesis by blast
qed

lemma main_return:
  assumes "snd (main_loop cfg script) = Return"
  shows "\<exists>pre a rest self ps. script = pre @ a # rest \<and> list_all (retries cfg) pre
           \<and> connect_ends a = Returns \<and> bind_ends a = BindOk \<and> search_ends a = Returns
           \<and> run (callbacks a) (connect cfg) = Done self ps
           \<and> polling_ends a = KeyboardInterrupt"
proof -
  from assms have "snd (main_loop cfg script) \<noteq> Looping" by simp
  then obtain pre a rest where s: "script = pre @ a # rest" and p: "list_all (retries cfg) pre"
    and a: "\<not> retries cfg a" and e: "snd (main_loop cfg script) = snd (main_loop cfg (a # rest))"
    by (rule main_ending_cases)
  from e assms have "snd (main_loop cfg (a # rest)) = Return" by simp
  from main_return_turn[OF a this] s p show ?thesis by blast
qed

lemma main_stops_exit:
  assumes "list_all (retries cfg) pre" and "connect_ends a = Returns"
    and "bind_ends a = InvalidCredentials"
  shows "main_loop cfg (pre @ a # rest) = (concat (map (turn_trace cfg) pre) @ [Connect], SysExit 1)"
  using assms(2,3) by (simp add: main_append[OF assms(1)])

lemma main_stops_return:
  assumes "list_all (retries cfg) pre" and "connect_ends a = Returns" and "bind_ends a = BindOk"
    and "search_ends a = Returns" and "run (callbacks a) (connect cfg) = Done self ps"
    and "polling_ends a = KeyboardInterrupt"
  shows "main_loop cfg (pre @ a # rest)
         = (concat (map (turn_trace cfg) pre) @ Connect # map Put ps, Return)"
  using assms(2-) by (simp add: main_append[OF assms(1)])

lemma main_stops_uncaught:
  assumes "list_all (retries cfg) pre"
    and "connect_ends a = Raises
         \<or> connect_ends a = Returns
           \<and> (bind_ends a = BindRaises \<or> bind_ends a = BindOk \<and> search_ends a = Raises)"
  shows "main_loop cfg (pre @ a # rest) = (concat (map (turn_trace cfg) pre) @ [Connect], Uncaught)"
  using assms(2) by (auto simp add: main_append[OF assms(1)])

lemma main_stops_interrupt:
  assumes "list_all (retries cfg) pre"
    and "connect_ends a = Interrupted
         \<or> connect_ends a = Returns
           \<and> (bind_ends a = BindInterrupted \<or> bind_ends a = BindOk \<and> search_ends a = Interrupted)"
  shows "main_loop cfg (pre @ a # rest)
         = (concat (map (turn_trace cfg) pre) @ [Connect], UncaughtInterrupt)"
  using assms(2) by (auto simp add: main_append[OF assms(1)])

lemma main_stops_sleep:
  assumes "list_all (retries cfg) pre" and "fails cfg a" and "sleep_interrupted a"
  shows "main_loop cfg (pre @ a # rest)
         = (concat (map (turn_trace cfg) pre) @ Connect # map Put (turn_puts cfg a),
            UncaughtInterrupt)"
proof (cases "run (callbacks a) (connect cfg)")
  case (Done self ps)
  with assms(2,3) show ?thesis
    by (cases "bind_ends a"; cases "polling_ends a")
       (auto simp add: main_append[OF assms(1)] fails_def turn_puts_def)
next
  case (Raised e ps)
  with assms(2,3) show ?thesis
    by (cases "bind_ends a")
       (auto simp add: main_append[OF assms(1)] fails_def turn_puts_def)
qed

lemma main_turn_fails:
  assumes "fails cfg a" and "\<not> sleep_interrupted a"
  shows "main_loop cfg (a # rest)
         = after_actions (Connect # map Put (turn_puts cfg a) @ [Sleep 5]) (main_loop cfg rest)"
proof -
  from assms have "retries cfg a" by (simp add: retries_def)
  from main_retry[OF this] assms(1) show ?thesis by (simp add: turn_trace_def)
qed

lemma main_turn_search_over:
  assumes "search_over cfg a"
  shows "main_loop cfg (a # rest)
         = after_actions (Connect # map Put (turn_puts cfg a)) (main_loop cfg rest)"
proof -
  from assms have r: "retries cfg a" by (simp add: retries_def)
  from assms have "\<not> fails cfg a"
    by (auto simp: search_over_def fails_def split: outcome.splits)
  with main_retry[OF r] show ?thesis by (simp add: turn_trace_def)
qed

lemma main_status_0:
  "exit_status (snd (main_loop cfg script)) = Some (Status 0)
   \<longleftrightarrow> snd (main_loop cfg script) = Return"
proof (cases "snd (main_loop cfg script)")
  case (SysExit n)
  from main_sys_exit[OF this] SysExit show ?thesis by simp
qed simp_all

lemma main_status_1:
  "exit_status (snd (main_loop cfg script)) = Some (Status 1)
   \<longleftrightarrow> snd (main_loop cfg script) = SysExit 1 \<or> snd (main_loop cfg script) = Uncaught"
  by (cases "snd (main_loop cfg script)") simp_all

lemma main_before_loop:
  "main cfg url_ends script =
     (if ldapurl cfg = None \<or> url_ends = Raises then ([], Uncaught)
      else if url_ends = Interrupted then ([], UncaughtInterrupt)
      else main_loop cfg script)"
  by (cases url_ends) (simp_all add: main_def split: option.splits)

lemmas turn_defs = retries_def fails_def search_over_def turn_trace_def turn_puts_def cfg0_def
  connect_def server_down_def bad_value_def search_ended_def interrupted_def denied_def
  bind_error_def search_error_def sleep_cut_def

text \<open>
  The sample turns, evaluated.
\<close>

lemma sample_runs:
  "run (callbacks bad_value) (connect cfg0) = Raised UnicodeDecodeError []"
  "run (callbacks search_ended) (connect cfg0)
     = Done (init\<lparr>sync_done := True, changedb := [(''u1'', [(''dn'', PStr ''cn=a'')])]\<rparr>)
         [\<lparr>js_dn = PStr ''cn=a'', js_change_type = ''add'', js_old_attributes = PDict [],
           js_new_attributes = PDict [(''dn'', PStr ''cn=a'')]\<rparr>]"
  "run (callbacks interrupted) (connect cfg0)
     = Done (init\<lparr>changedb := [(''u1'', [(''dn'', PStr ''cn=a'')])]\<rparr>) []"
  by (simp_all add: turn_defs eval_defs)

lemma sample_turns:
  "fails cfg0 server_down" "\<not> sleep_interrupted server_down"
  "fails cfg0 bad_value" "\<not> sleep_interrupted bad_value"
  "search_over cfg0 search_ended"
  "fails cfg0 sleep_cut" "sleep_interrupted sleep_cut"
  "connect_ends denied = Returns" "bind_ends denied = InvalidCredentials"
  "connect_ends interrupted = Returns" "bind_ends interrupted = BindOk"
  "search_ends interrupted = Returns" "polling_ends interrupted = KeyboardInterrupt"
  "connect_ends bind_error = Returns" "bind_ends bind_error = BindRaises"
  "connect_ends search_error = Returns" "bind_ends search_error = BindOk"
  "search_ends search_error = Raises"
  using sample_runs(1,2)
  by (simp_all add: fails_def search_over_def)
     (simp_all add: server_down_def bad_value_def search_ended_def sleep_cut_def denied_def
        interrupted_def bind_error_def search_error_def)

lemma sample_traces:
  "turn_trace cfg0 server_down = [Connect, Sleep 5]"
  "turn_trace cfg0 bad_value = [Connect, Sleep 5]"
  "turn_trace cfg0 search_ended
     = [Connect, Put \<lparr>js_dn = PStr ''cn=a'', js_change_type = ''add'',
                       js_old_attributes = PDict [],
                       js_new_attributes = PDict [(''dn'', PStr ''cn=a'')]\<rparr>]"
  "turn_puts cfg0 sleep_cut = []"
  "turn_puts cfg0 bad_value = []"
  "turn_puts cfg0 search_ended
     = [\<lparr>js_dn = PStr ''cn=a'', js_change_type = ''add'', js_old_attributes = PDict [],
         js_new_attributes = PDict [(''dn'', PStr ''cn=a'')]\<rparr>]"
proof -
  have f: "\<not> fails cfg0 search_ended"
    using sample_runs(2) by (simp add: fails_def) (simp add: search_ended_def)
  show "turn_trace cfg0 server_down = [Connect, Sleep 5]"
    using sample_turns(1) by (simp add: turn_trace_def turn_puts_def) (simp add: server_down_def)
  show p2: "turn_puts cfg0 bad_value = []"
    using sample_runs(1) by (simp add: turn_puts_def)
  show "turn_trace cfg0 bad_value = [Connect, Sleep 5]"
    using sample_turns(3) p2 by (simp add: turn_trace_def)
  show p3: "turn_puts cfg0 search_ended
     = [\<lparr>js_dn = PStr ''cn=a'', js_change_type = ''add'', js_old_attributes = PDict [],
         js_new_attributes = PDict [(''dn'', PStr ''cn=a'')]\<rparr>]"
    using sample_runs(2) by (simp add: turn_puts_def) (simp add: search_ended_def)
  show "turn_trace cfg0 search_ended
     = [Connect, Put \<lparr>js_dn = PStr ''cn=a'', js_change_type = ''add'',
                       js_old_attributes = PDict [],
                       js_new_attributes = PDict [(''dn'', PStr ''cn=a'')]\<rparr>]"
    using f p3 by (simp add: turn_trace_def)
  show "turn_puts cfg0 sleep_cut = []"
    by (simp add: turn_puts_def) (simp add: sleep_cut_def)
qed

lemma sample_retries:
  "retries cfg0 server_down" "retries cfg0 bad_value" "retries cfg0 search_ended"
  using sample_turns(1-5) by (simp_all add: retries_def)

text \<open>
  C8, as the code has it.  As long as every turn is one that retries, \<open>main\<close> is still in
  its loop, however long the script, and what is seen of the run is what is seen of its
  turns one after the other.  A turn that fails (server down at the bind, an exception
  other than \<open>KeyboardInterrupt\<close> during the polling) ends in one sleep of 5 seconds, and
  a turn whose search is over ends in no sleep; in both cases the next turn starts from a
  new client.  After such turns \<open>main\<close> calls \<open>sys.exit(1)\<close> when the credentials are
  refused, and returns when \<open>KeyboardInterrupt\<close> reaches the polling loop.  An exception
  of the constructor, another exception of the bind, or an exception of
  \<open>syncrepl_search\<close> is caught by nobody; neither is a \<open>KeyboardInterrupt\<close> that arrives
  in the constructor, the bind, \<open>syncrepl_search\<close> or one of the two sleeps.  Conversely
  \<open>sys.exit\<close> is only ever called with 1 and after refused credentials, and \<open>main\<close> only
  returns on \<open>KeyboardInterrupt\<close> during the polling; so the status is 0 only then, and
  it is 1 after refused credentials and after an exception that nobody caught.  Before
  the loop, a missing \<open>'ldapurl'\<close> key and an exception of \<open>ldapurl.LDAPUrl\<close> are caught
  by nobody.
\<close>

theorem main_endings:
  "(list_all (retries cfg) script \<longrightarrow>
      main_loop cfg script = (concat (map (turn_trace cfg) script), Looping))
   \<and> (fails cfg a \<and> \<not> sleep_interrupted a \<longrightarrow>
      main_loop cfg (a # rest)
        = after_actions (Connect # map Put (turn_puts cfg a) @ [Sleep 5]) (main_loop cfg rest))
   \<and> (search_over cfg a \<longrightarrow>
      main_loop cfg (a # rest)
        = after_actions (Connect # map Put (turn_puts cfg a)) (main_loop cfg rest))
   \<and> (list_all (retries cfg) pre \<and> connect_ends a = Returns
        \<and> bind_ends a = InvalidCredentials \<longrightarrow>
      main_loop cfg (pre @ a # rest)
        = (concat (map (turn_trace cfg) pre) @ [Connect], SysExit 1))
   \<and> (list_all (retries cfg) pre \<and> connect_ends a = Returns \<and> bind_ends a = BindOk
        \<and> search_ends a = Returns \<and> run (callbacks a) (connect cfg) = Done self ps
        \<and> polling_ends a = KeyboardInterrupt \<longrightarrow>
      main_loop cfg (pre @ a # rest)
        = (concat (map (turn_trace cfg) pre) @ Connect # map Put ps, Return))
   \<and> (list_all (retries cfg) pre
        \<and> (connect_ends a = Raises
           \<or> connect_ends a = Returns
             \<and> (bind_ends a = BindRaises \<or> bind_ends a = BindOk \<and> search_ends a = Raises)) \<longrightarrow>
      main_loop cfg (pre @ a # rest)
        = (concat (map (turn_trace cfg) pre) @ [Connect], Uncaught))
   \<and> (list_all (retries cfg) pre
        \<and> (connect_ends a = Interrupted
           \<or> connect_ends a = Returns
             \<and> (bind_ends a = BindInterrupted
                \<or> bind_ends a = BindOk \<and> search_ends a = Interrupted)) \<longrightarrow>
      main_loop cfg (pre @ a # rest)
        = (concat (map (turn_trace cfg) pre) @ [Connect], UncaughtInterrupt))
   \<and> (list_all (retries cfg) pre \<and> fails cfg a \<and> sleep_interrupted a \<longrightarrow>
      main_loop cfg (pre @ a # rest)
        = (concat (map (turn_trace cfg) pre) @ Connect # map Put (turn_puts cfg a),
           UncaughtInterrupt))
   \<and> (snd (main_loop cfg script) = SysExit n \<longrightarrow>
      n = 1 \<and> (\<exists>pre a rest. script = pre @ a # rest \<and> list_all (retries cfg) pre
                 \<and> connect_ends a = Returns \<and> bind_ends a = InvalidCredentials))
   \<and> (snd (main_loop cfg script) = Return \<longrightarrow>
      (\<exists>pre a rest self ps. script = pre @ a # rest \<and> list_all (retries cfg) pre
         \<and> connect_ends a = Returns \<and> bind_ends a = BindOk \<and> search_ends a = Returns
         \<and> run (callbacks a) (connect cfg) = Done self ps
         \<and> polling_ends a = KeyboardInterrupt))
   \<and> (exit_status (snd (main_loop cfg script)) = Some (Status 0)
        \<longleftrightarrow> snd (main_loop cfg script) = Return)
   \<and> (exit_status (snd (main_loop cfg script)) = Some (Status 1)
        \<longleftrightarrow> snd (main_loop cfg script) = SysExit 1 \<or> snd (main_loop cfg script) = Uncaught)
   \<and> main cfg url_ends script =
       (if ldapurl cfg = None \<or> url_ends = Raises then ([], Uncaught)
        else if url_ends = Interrupted then ([], UncaughtInterrupt)
        else main_loop cfg script)"
proof (intro conjI impI)
  show "main_loop cfg script = (concat (map (turn_trace cfg) script), Looping)"
    if "list_all (retries cfg) script"
    using that by (rule main_loops)
  show "main_loop cfg (a # rest)
        = after_actions (Connect # map Put (turn_puts cfg a) @ [Sleep 5]) (main_loop cfg rest)"
    if "fails cfg a \<and> \<not> sleep_interrupted a"
    using that main_turn_fails by blast
  show "main_loop cfg (a # rest)
        = after_actions (Connect # map Put (turn_puts cfg a)) (main_loop cfg rest)"
    if "search_over cfg a"
    using that by (rule main_turn_search_over)
  show "main_loop cfg (pre @ a # rest)
        = (concat (map (turn_trace cfg) pre) @ [Connect], SysExit 1)"
    if "list_all (retries cfg) pre \<and> connect_ends a = Returns \<and> bind_ends a = InvalidCredentials"
    using that main_stops_exit by blast
  show "main_loop cfg (pre @ a # rest)
        = (concat (map (turn_trace cfg) pre) @ Connect # map Put ps, Return)"
    if "list_all (retries cfg) pre \<and> connect_ends a = Returns \<and> bind_ends a = BindOk
        \<and> search_ends a = Returns \<and> run (callbacks a) (connect cfg) = Done self ps
        \<and> polling_ends a = KeyboardInterrupt"
    using that main_stops_return by blast
  show "main_loop cfg (pre @ a # rest)
        = (concat (map (turn_trace cfg) pre) @ [Connect], Uncaught)"
    if "list_all (retries cfg) pre
        \<and> (connect_ends a = Raises
           \<or> connect_ends a = Returns
             \<and> (bind_ends a = BindRaises \<or> bind_ends a = BindOk \<and> search_ends a = Raises))"
    using that main_stops_uncaught[of cfg pre a rest] by blast
  show "main_loop cfg (pre @ a # rest)
        = (concat (map (turn_trace cfg) pre) @ [Connect], UncaughtInterrupt)"
    if "list_all (retries cfg) pre
        \<and> (connect_ends a = Interrupted
           \<or> connect_ends a = Returns
             \<and> (bind_ends a = BindInterrupted
                \<or> bind_ends a = BindOk \<and> search_ends a = Interrupted))"
    using that main_stops_interrupt[of cfg pre a rest] by blast
  show "main_loop cfg (pre @ a # rest)
        = (concat (map (turn_trace cfg) pre) @ Connect # map Put (turn_puts cfg a),
           UncaughtInterrupt)"
    if "list_all (retries cfg) pre \<and> fails cfg a \<and> sleep_interrupted a"
    using that main_stops_sleep by blast
  show "n = 1" if "snd (main_loop cfg script) = SysExit n"
    using main_sys_exit[OF that] by (rule conjunct1)
  show "\<exists>pre a rest. script = pre @ a # rest \<and> list_all (retries cfg) pre
          \<and> connect_ends a = Returns \<and> bind_ends a = InvalidCredentials"
    if "snd (main_loop cfg script) = SysExit n"
    using main_sys_exit[OF that] by (rule conjunct2)
  show "\<exists>pre a rest self ps. script = pre @ a # rest \<and> list_all (retries cfg) pre
         \<and> connect_ends a = Returns \<and> bind_ends a = BindOk \<and> search_ends a = Returns
         \<and> run (callbacks a) (connect cfg) = Done self ps
         \<and> polling_ends a = KeyboardInterrupt"
    if "snd (main_loop cfg script) = Return"
    using that by (rule main_return)
  show "exit_status (snd (main_loop cfg script)) = Some (Status 0)
        \<longleftrightarrow> snd (main_loop cfg script) = Return"
    by (rule main_status_0)
  show "exit_status (snd (main_loop cfg script)) = Some (Status 1)
        \<longleftrightarrow> snd (main_loop cfg script) = SysExit 1 \<or> snd (main_loop cfg script) = Uncaught"
    by (rule main_status_1)
  show "main cfg url_ends script =
       (if ldapurl cfg = None \<or> url_ends = Raises then ([], Uncaught)
        else if url_ends = Interrupted then ([], UncaughtInterrupt)
        else main_loop cfg script)"
    by (rule main_before_loop)
qed

theorem main_endings_witness:
  "main_loop cfg0 [server_down, bad_value, search_ended]
     = ([Connect, Sleep 5, Connect, Sleep 5, Connect,
         Put \<lparr>js_dn = PStr ''cn=a'', js_change_type = ''add'', js_old_attributes = PDict [],
              js_new_attributes = PDict [(''dn'', PStr ''cn=a'')]\<rparr>], Looping)
   \<and> main_loop cfg0 [bad_value, denied]
     = after_actions [Connect, Sleep 5] (main_loop cfg0 [denied])
   \<and> main_loop cfg0 [search_ended, denied]
     = after_actions
         [Connect,
          Put \<lparr>js_dn = PStr ''cn=a'', js_change_type = ''add'', js_old_attributes = PDict [],
               js_new_attributes = PDict [(''dn'', PStr ''cn=a'')]\<rparr>]
         (main_loop cfg0 [denied])
   \<and> main_loop cfg0 [server_down, denied, search_ended]
     = ([Connect, Sleep 5, Connect], SysExit 1)
   \<and> main_loop cfg0 [search_ended, interrupted, denied]
     = ([Connect,
         Put \<lparr>js_dn = PStr ''cn=a'', js_change_type = ''add'', js_old_attributes = PDict [],
              js_new_attributes = PDict [(''dn'', PStr ''cn=a'')]\<rparr>,
         Connect], Return)
   \<and> main_loop cfg0 [bad_value, search_error, denied]
     = ([Connect, Sleep 5, Connect], Uncaught)
   \<and> main_loop cfg0 [server_down, server_down\<lparr>bind_ends := BindInterrupted\<rparr>, denied]
     = ([Connect, Sleep 5, Connect], UncaughtInterrupt)
   \<and> main_loop cfg0 [server_down, sleep_cut, denied]
     = ([Connect, Sleep 5, Connect], UncaughtInterrupt)
   \<and> (\<exists>pre a rest. [server_down, denied, search_ended] = pre @ a # rest
         \<and> list_all (retries cfg0) pre \<and> connect_ends a = Returns
         \<and> bind_ends a = InvalidCredentials)
   \<and> (\<exists>pre a rest self ps. [search_ended, interrupted, denied] = pre @ a # rest
         \<and> list_all (retries cfg0) pre
         \<and> connect_ends a = Returns \<and> bind_ends a = BindOk \<and> search_ends a = Returns
         \<and> run (callbacks a) (connect cfg0) = Done self ps
         \<and> polling_ends a = KeyboardInterrupt)
   \<and> exit_status (snd (main_loop cfg0 [search_ended, interrupted, denied])) = Some (Status 0)
   \<and> exit_status (snd (main_loop cfg0 [server_down, denied, search_ended])) = Some (Status 1)
   \<and> main cfg0 Returns [server_down, denied, search_ended]
     = ([Connect, Sleep 5, Connect], SysExit 1)"
proof -
  let ?add = "\<lparr>js_dn = PStr ''cn=a'', js_change_type = ''add'', js_old_attributes = PDict [],
               js_new_attributes = PDict [(''dn'', PStr ''cn=a'')]\<rparr>"
  have r3: "list_all (retries cfg0) [server_down, bad_value, search_ended]"
    and r1: "list_all (retries cfg0) [server_down]"
    and r1': "list_all (retries cfg0) [search_ended]"
    and r1'': "list_all (retries cfg0) [bad_value]"
    using sample_retries by simp_all
  have w1: "main_loop cfg0 [server_down, bad_value, search_ended]
     = ([Connect, Sleep 5, Connect, Sleep 5, Connect, Put ?add], Looping)"
    using main_endings[where cfg = cfg0 and script = "[server_down, bad_value, search_ended]",
        THEN conjunct1, THEN mp, OF r3]
    by (simp only: list.map concat.simps sample_traces append.simps)
  have w2: "main_loop cfg0 [bad_value, denied]
     = after_actions [Connect, Sleep 5] (main_loop cfg0 [denied])"
    using main_endings[where cfg = cfg0 and a = bad_value and rest = "[denied]",
        THEN conjunct2, THEN conjunct1, THEN mp, OF conjI[OF sample_turns(3) sample_turns(4)]]
    by (simp only: sample_traces list.map append.simps)
  have w3: "main_loop cfg0 [search_ended, denied]
     = after_actions [Connect, Put ?add] (main_loop cfg0 [denied])"
    using main_endings[where cfg = cfg0 and a = search_ended and rest = "[denied]",
        THEN conjunct2, THEN conjunct2, THEN conjunct1, THEN mp, OF sample_turns(5)]
    by (simp only: sample_traces list.map)
  have w4: "main_loop cfg0 [server_down, denied, search_ended]
     = ([Connect, Sleep 5, Connect], SysExit 1)"
    using main_endings[where cfg = cfg0 and pre = "[server_down]" and a = denied
          and rest = "[search_ended]",
        THEN conjunct2, THEN conjunct2, THEN conjunct2, THEN conjunct1, THEN mp,
        OF conjI[OF r1 conjI[OF sample_turns(8) sample_turns(9)]]]
    by (simp only: list.map concat.simps sample_traces append.simps)
  have w5: "main_loop cfg0 [search_ended, interrupted, denied]
     = ([Connect, Put ?add, Connect], Return)"
    using main_endings[where cfg = cfg0 and pre = "[search_ended]" and a = interrupted
          and rest = "[denied]",
        THEN conjunct2, THEN conjunct2, THEN conjunct2, THEN conjunct2, THEN conjunct1, THEN mp,
        OF conjI[OF r1' conjI[OF sample_turns(10) conjI[OF sample_turns(11)
             conjI[OF sample_turns(12) conjI[OF sample_runs(3) sample_turns(13)]]]]]]
    by (simp only: list.map concat.simps sample_traces append.simps)
  have "connect_ends search_error = Raises
         \<or> connect_ends search_error = Returns
           \<and> (bind_ends search_error = BindRaises
              \<or> bind_ends search_error = BindOk \<and> search_ends search_error = Raises)"
    using sample_turns(16-18) by simp
  note w6' = main_endings[where cfg = cfg0 and pre = "[bad_value]" and a = search_error
          and rest = "[denied]",
        THEN conjunct2, THEN conjunct2, THEN conjunct2, THEN conjunct2, THEN conjunct2,
        THEN conjunct1, THEN mp, OF conjI[OF r1'' this]]
  have w6: "main_loop cfg0 [bad_value, search_error, denied]
     = ([Connect, Sleep 5, Connect], Uncaught)"
    using w6' by (simp only: list.map concat.simps sample_traces append.simps)
  let ?cut = "server_down\<lparr>bind_ends := BindInterrupted\<rparr>"
  have "connect_ends ?cut = Interrupted
         \<or> connect_ends ?cut = Returns
           \<and> (bind_ends ?cut = BindInterrupted
              \<or> bind_ends ?cut = BindOk \<and> search_ends ?cut = Interrupted)"
    by (simp add: server_down_def)
  note w7' = main_endings[where cfg = cfg0 and pre = "[server_down]" and a = ?cut
          and rest = "[denied]",
        THEN conjunct2, THEN conjunct2, THEN conjunct2, THEN conjunct2, THEN conjunct2,
        THEN conjunct2, THEN conjunct1, THEN mp, OF conjI[OF r1 this]]
  have w7: "main_loop cfg0 [server_down, ?cut, denied]
     = ([Connect, Sleep 5, Connect], UncaughtInterrupt)"
    using w7' by (simp only: list.map concat.simps sample_traces append.simps)
  have w8: "main_loop cfg0 [server_down, sleep_cut, denied]
     = ([Connect, Sleep 5, Connect], UncaughtInterrupt)"
    using main_endings[where cfg = cfg0 and pre = "[server_down]" and a = sleep_cut
          and rest = "[denied]",
        THEN conjunct2, THEN conjunct2, THEN conjunct2, THEN conjunct2, THEN conjunct2,
        THEN conjunct2, THEN conjunct2, THEN conjunct1, THEN mp,
        OF conjI[OF r1 conjI[OF sample_turns(6) sample_turns(7)]]]
    by (simp only: list.map concat.simps sample_traces append.simps)
  have s4: "snd (main_loop cfg0 [server_down, denied, search_ended]) = SysExit 1"
    by (simp only: w4 snd_conv)
  have s5: "snd (main_loop cfg0 [search_ended, interrupted, denied]) = Return"
    by (simp only: w5 snd_conv)
  note w9 = main_endings[where cfg = cfg0 and script = "[server_down, denied, search_ended]"
        and n = 1,
        THEN conjunct2, THEN conjunct2, THEN conjunct2, THEN conjunct2, THEN conjunct2,
        THEN conjunct2, THEN conjunct2, THEN conjunct2, THEN conjunct1, THEN mp, OF s4,
        THEN conjunct2]
  note w10 = main_endings[where cfg = cfg0 and script = "[search_ended, interrupted, denied]",
        THEN conjunct2, THEN conjunct2, THEN conjunct2, THEN conjunct2, THEN conjunct2,
        THEN conjunct2, THEN conjunct2, THEN conjunct2, THEN conjunct2, THEN conjunct1,
        THEN mp, OF s5]
  note w11 = main_endings[where cfg = cfg0 and script = "[search_ended, interrupted, denied]",
        THEN conjunct2, THEN conjunct2, THEN conjunct2, THEN conjunct2, THEN conjunct2,
        THEN conjunct2, THEN conjunct2, THEN conjunct2, THEN conjunct2, THEN conjunct2,
        THEN conjunct1, THEN iffD2, OF s5]
  have w12: "exit_status (snd (main_loop cfg0 [server_down, denied, search_ended]))
               = Some (Status 1)"
    using main_endings[where cfg = cfg0 and script = "[server_down, denied, search_ended]",
        THEN conjunct2, THEN conjunct2, THEN conjunct2, THEN conjunct2, THEN conjunct2,
        THEN conjunct2, THEN conjunct2, THEN conjunct2, THEN conjunct2, THEN conjunct2,
        THEN conjunct2, THEN conjunct1, THEN iffD2, OF disjI1[OF s4]] .
  have w13: "main cfg0 Returns [server_down, denied, search_ended]
     = ([Connect, Sleep 5, Connect], SysExit 1)"
    using main_endings[where cfg = cfg0 and script = "[server_down, denied, search_ended]"
        and url_ends = Returns,
        THEN conjunct2, THEN conjunct2, THEN conjunct2, THEN conjunct2, THEN conjunct2,
        THEN conjunct2, THEN conjunct2, THEN conjunct2, THEN conjunct2, THEN conjunct2,
        THEN conjunct2, THEN conjunct2] w4
    by (simp add: cfg0_def)
  show ?thesis
    by (intro conjI w1 w2 w3 w4 w5 w6 w7 w8 w9 w10 w11 w12 w13)
qed

text \<open>
  C8 as it is stated fails on both counts.  The bind is guarded against two exceptions
  only and the start of the search against none, so any other exception there ends the
  process, with the status 1 of an uncaught exception, although the credentials were not
  refused.  And only the polling is guarded against \<open>KeyboardInterrupt\<close>: when the user
  interrupts the sleep that follows a refused connection, or the bind, the process ends
  on the uncaught \<open>KeyboardInterrupt\<close>, not with status 0.
\<close>

theorem main_ends_on_other_errors:
  "main_loop cfg0 [server_down, bind_error] = ([Connect, Sleep 5, Connect], Uncaught)
   \<and> main_loop cfg0 [search_error] = ([Connect], Uncaught)
   \<and> bind_ends bind_error \<noteq> InvalidCredentials
   \<and> bind_ends search_error \<noteq> InvalidCredentials
   \<and> exit_status Uncaught = Some (Status 1)
   \<and> main_loop cfg0 [sleep_cut] = ([Connect], UncaughtInterrupt)
   \<and> main_loop cfg0 [server_down\<lparr>bind_ends := BindInterrupted\<rparr>]
       = ([Connect], UncaughtInterrupt)
   \<and> exit_status UncaughtInterrupt = Some Sigint
   \<and> Some Sigint \<noteq> Some (Status 0)"
  by (simp add: turn_defs eval_defs)

end
